theory Spec2Isabelle
  imports Main
begin

section \<open>The router of modules/@angular/router/src/router.ts\<close>

text \<open>
  A shallow embedding of \<^verbatim>\<open>router.ts\<close>: the guard-phase tree diff of
  \<^verbatim>\<open>PreActivation\<close>, the guard evaluation of \<^verbatim>\<open>checkGuards\<close>,
  the commit-phase diff of \<^verbatim>\<open>ActivateRoutes\<close> and the navigation
  sequencing of \<^verbatim>\<open>Router.scheduleNavigation\<close> and
  \<^verbatim>\<open>Router.runNavigate\<close>.

  Every \<^verbatim>\<open>throw\<close> and every read of a property of \<^verbatim>\<open>null\<close>
  or \<^verbatim>\<open>undefined\<close> is a value \<open>Inl e\<close> of the result; fields that the
  code mutates are passed in and returned.
\<close>

subsection \<open>Data model\<close>

datatype error =
    TypeError string  \<comment> \<open>a property of \<^verbatim>\<open>null\<close> or \<^verbatim>\<open>undefined\<close> is read\<close>
  | Error string      \<comment> \<open>\<^verbatim>\<open>throw new Error(msg)\<close> in router.ts\<close>
  | Failure string    \<comment> \<open>a collaborator throws, or its eventual value rejects\<close>

text \<open>The values a guard may produce (\<^verbatim>\<open>any\<close>); only \<open>JBool True\<close> is \<^verbatim>\<open>=== true\<close>.\<close>

datatype jsval = JBool bool | JUndefined | JNull | JNum int | JStr string

type_synonym token = string
type_synonym Object = string
type_synonym Params = "(string \<times> string) list"

text \<open>
  A route-table entry (\<^verbatim>\<open>Route\<close> of config.ts). The code compares entries by
  reference (\<^verbatim>\<open>future._routeConfig === curr._routeConfig\<close>); \<open>route_ref\<close> is
  that reference. A guard list that is \<^verbatim>\<open>undefined\<close> is \<open>None\<close>.
\<close>

record Route =
  route_ref :: nat
  canActivate :: "token list option"
  canActivateChild :: "token list option"
  canDeactivate :: "token list option"

record ActivatedRouteSnapshot =
  outlet :: string
  component :: "string option"
  params :: Params
  routeConfig :: "Route option"

datatype 'a TreeNode = TreeNode (val: 'a) (children: "'a TreeNode list")

text \<open>
  A JavaScript object used as a dictionary: an association list in the order in which
  \<^verbatim>\<open>for .. in\<close> enumerates the keys. The keys that are array indices (the
  decimal numeral, without a leading zero, of a number below \<open>2\<^sup>3\<^sup>2 - 1\<close>) come
  first, in ascending numeric order; the other keys follow in insertion order. Assigning
  an existing key keeps the key's position.
\<close>

definition dict_get :: "(string \<times> 'v) list \<Rightarrow> string \<Rightarrow> 'v option" where
  "dict_get m k = map_of m k"

definition isDigit :: "char \<Rightarrow> bool" where
  "isDigit c = (48 \<le> (of_char c :: int) \<and> (of_char c :: int) \<le> 57)"

definition numberOf :: "string \<Rightarrow> int" where
  "numberOf k = foldl (\<lambda>n c. 10 * n + (of_char c - 48)) 0 k"

definition arrayIndex :: "string \<Rightarrow> int option" where
  "arrayIndex k =
     (if k \<noteq> [] \<and> list_all isDigit k \<and> (length k = 1 \<or> hd k \<noteq> CHR ''0'')
         \<and> numberOf k < 4294967295
      then Some (numberOf k) else None)"

fun dict_replace :: "string \<Rightarrow> 'v \<Rightarrow> (string \<times> 'v) list \<Rightarrow> (string \<times> 'v) list" where
  "dict_replace k v [] = []"
| "dict_replace k v (p # ps) = (if fst p = k then (k, v) # ps else p # dict_replace k v ps)"

fun dict_insert :: "string \<Rightarrow> 'v \<Rightarrow> (string \<times> 'v) list \<Rightarrow> (string \<times> 'v) list" where
  "dict_insert k v [] = [(k, v)]"
| "dict_insert k v (p # ps) =
     (case arrayIndex k of
        None \<Rightarrow> p # dict_insert k v ps
      | Some i \<Rightarrow>
          (case arrayIndex (fst p) of
             None \<Rightarrow> (k, v) # p # ps
           | Some j \<Rightarrow> if i < j then (k, v) # p # ps else p # dict_insert k v ps))"

definition dict_set :: "string \<Rightarrow> 'v \<Rightarrow> (string \<times> 'v) list \<Rightarrow> (string \<times> 'v) list" where
  "dict_set k v m = (if dict_get m k = None then dict_insert k v m else dict_replace k v m)"

definition dict_delete :: "string \<Rightarrow> (string \<times> 'v) list \<Rightarrow> (string \<times> 'v) list" where
  "dict_delete k m = filter (\<lambda>p. fst p \<noteq> k) m"

text \<open>
  Modelled from the spec: \<^verbatim>\<open>shallowEqual\<close> of utils/collection is not among the
  sources. Two parameter objects are equal when they have the same number of keys and
  every key of the first has the identical value in the second.
\<close>

definition shallowEqual :: "Params \<Rightarrow> Params \<Rightarrow> bool" where
  "shallowEqual a b =
     (length a = length b \<and> list_all (\<lambda>k. dict_get a k = dict_get b k) (map fst a))"

text \<open>
  The live route handed to the UI (\<^verbatim>\<open>ActivatedRoute\<close> of router_state.ts).
  \<open>ar_ref\<close> is the object's identity, which \<^verbatim>\<open>future === curr\<close> compares.
\<close>

record ActivatedRoute =
  ar_ref :: nat
  outlet_r :: string
  component_r :: "string option"
  snapshot :: ActivatedRouteSnapshot
  futureSnapshot :: ActivatedRouteSnapshot

text \<open>
  Modelled from the spec: \<^verbatim>\<open>RouterOutlet\<close> and \<^verbatim>\<open>RouterOutletMap\<close> are not
  among the sources. A slot registry maps a slot name to an occupancy record
  \<open>{isActivated, mounted component handle, nested slot registry}\<close>; the record also holds
  the route mounted in the slot (\<^verbatim>\<open>v.activatedRoute\<close>). A nested registry that is
  \<^verbatim>\<open>undefined\<close> is \<open>None\<close>.
\<close>

datatype RouterOutlet =
  RouterOutlet (isActivated: bool) (component_o: Object) (activatedRoute: ActivatedRoute)
    (outletMap: "RouterOutletMap option")
and RouterOutletMap = RouterOutletMap (outlets: "(string \<times> RouterOutlet) list")

text \<open>
  The second argument of \<^verbatim>\<open>new CanDeactivate(component, route)\<close>. It is declared an
  \<^verbatim>\<open>ActivatedRouteSnapshot\<close>, but \<^verbatim>\<open>traverseChildRoutes\<close> passes the values of
  \<^verbatim>\<open>prevChildren\<close>, which are tree nodes (the parameter is typed \<^verbatim>\<open>any\<close>).
\<close>

datatype RouteArg = Snapshot ActivatedRouteSnapshot | Node "ActivatedRouteSnapshot TreeNode"

datatype Check =
    CanActivate (path: "ActivatedRouteSnapshot list")
  | CanDeactivate (component_c: Object) (route_c: RouteArg)

text \<open>Sequencing of steps that may throw: the first \<open>Inl\<close> ends the computation.\<close>

definition bindE :: "error + 'a \<Rightarrow> ('a \<Rightarrow> error + 'b) \<Rightarrow> error + 'b" where
  "bindE r f = (case r of Inl e \<Rightarrow> Inl e | Inr x \<Rightarrow> f x)"

subsection \<open>PreActivation: the guard-phase diff\<close>

text \<open>\<^verbatim>\<open>nodeChildrenAsMap\<close>.\<close>

definition nodeChildrenAsMap :: "'a TreeNode option \<Rightarrow> ('a \<Rightarrow> string) \<Rightarrow> (string \<times> 'a TreeNode) list" where
  "nodeChildrenAsMap node outlet_of =
     (case node of
        None \<Rightarrow> []
      | Some n \<Rightarrow> foldl (\<lambda>m c. dict_set (outlet_of (val c)) c m) [] (children n))"

text \<open>
  \<^verbatim>\<open>same_routeConfig\<close> is \<^verbatim>\<open>future._routeConfig === curr._routeConfig\<close>: both
  \<^verbatim>\<open>null\<close>, or the same entry.
\<close>

definition same_routeConfig :: "ActivatedRouteSnapshot \<Rightarrow> ActivatedRouteSnapshot \<Rightarrow> bool" where
  "same_routeConfig future current =
     (map_option route_ref (routeConfig future) = map_option route_ref (routeConfig current))"

text \<open>
  \<^verbatim>\<open>deactivateOutletAndItChildren\<close> and \<^verbatim>\<open>deactivateOutletMap\<close>; \<open>deactivateOutlets\<close>
  is the \<^verbatim>\<open>forEach\<close> over \<^verbatim>\<open>outletMap._outlets\<close>. The list of checks is
  \<^verbatim>\<open>this.checks\<close>.
\<close>

fun deactivateOutletAndItChildren ::
    "RouteArg \<Rightarrow> RouterOutlet option \<Rightarrow> Check list \<Rightarrow> error + Check list"
  and deactivateOutletMap :: "RouterOutletMap option \<Rightarrow> Check list \<Rightarrow> error + Check list"
  and deactivateOutlets :: "(string \<times> RouterOutlet) list \<Rightarrow> Check list \<Rightarrow> error + Check list"
where
  "deactivateOutletAndItChildren route None checks = Inr checks"
| "deactivateOutletAndItChildren route (Some (RouterOutlet act cmp ar om)) checks =
     (if act then
        bindE (deactivateOutletMap om checks)
          (\<lambda>checks'. Inr (checks' @ [CanDeactivate cmp route]))
      else Inr checks)"
| "deactivateOutletMap None checks = Inl (TypeError ''_outlets'')"
| "deactivateOutletMap (Some (RouterOutletMap os)) checks = deactivateOutlets os checks"
| "deactivateOutlets [] checks = Inr checks"
| "deactivateOutlets ((k, v) # rest) checks =
     (if isActivated v then
        bindE (deactivateOutletAndItChildren (Snapshot (snapshot (activatedRoute v))) (Some v) checks)
          (\<lambda>checks'. deactivateOutlets rest checks')
      else deactivateOutlets rest checks)"

text \<open>
  The second \<^verbatim>\<open>forEach\<close> of \<^verbatim>\<open>traverseChildRoutes\<close>: every previous child whose
  slot no future child took. \<^verbatim>\<open>outletMap._outlets[k]\<close> throws when the map is
  \<^verbatim>\<open>null\<close>.
\<close>

fun deactivateRemaining ::
    "(string \<times> ActivatedRouteSnapshot TreeNode) list \<Rightarrow> RouterOutletMap option \<Rightarrow> Check list
      \<Rightarrow> error + Check list" where
  "deactivateRemaining [] om checks = Inr checks"
| "deactivateRemaining ((k, v) # rest) None checks = Inl (TypeError ''_outlets'')"
| "deactivateRemaining ((k, v) # rest) (Some m) checks =
     bindE (deactivateOutletAndItChildren (Node v) (dict_get (outlets m) k) checks)
       (\<lambda>checks'. deactivateRemaining rest (Some m) checks')"

text \<open>
  The parts of \<^verbatim>\<open>traverseRoutes\<close> that do not recurse. \<open>outletOf\<close> is
  \<^verbatim>\<open>parentOutletMap ? parentOutletMap._outlets[futureNode.value.outlet] : null\<close>;
  \<open>reusingNode\<close> is the test \<^verbatim>\<open>curr && future._routeConfig === curr._routeConfig\<close>;
  \<open>childOutletMap\<close> is the outlet map handed to \<^verbatim>\<open>traverseChildRoutes\<close>, in both
  branches \<^verbatim>\<open>outlet ? outlet.outletMap : null\<close> for a route with a component and
  \<^verbatim>\<open>parentOutletMap\<close> for a componentless one.
\<close>

definition outletOf :: "RouterOutletMap option \<Rightarrow> ActivatedRouteSnapshot \<Rightarrow> RouterOutlet option" where
  "outletOf parentOutletMap future =
     (case parentOutletMap of
        None \<Rightarrow> None
      | Some m \<Rightarrow> dict_get (outlets m) (outlet future))"

definition reusingNode ::
    "ActivatedRouteSnapshot \<Rightarrow> ActivatedRouteSnapshot TreeNode option \<Rightarrow> bool" where
  "reusingNode future currNode =
     (case currNode of
        None \<Rightarrow> False
      | Some n \<Rightarrow> same_routeConfig future (val n))"

definition childOutletMap ::
    "ActivatedRouteSnapshot \<Rightarrow> RouterOutletMap option \<Rightarrow> RouterOutletMap option" where
  "childOutletMap future parentOutletMap =
     (if component future \<noteq> None
      then (case outletOf parentOutletMap future of None \<Rightarrow> None | Some ol \<Rightarrow> outletMap ol)
      else parentOutletMap)"

text \<open>
  \<open>recordChecks\<close> is what \<^verbatim>\<open>traverseRoutes\<close> does to \<^verbatim>\<open>this.checks\<close> before
  it recurses: in the reusing branch the \<^verbatim>\<open>push\<close> of line 470, which reads
  \<^verbatim>\<open>outlet.component\<close> with no test of \<^verbatim>\<open>outlet\<close>; in the other branch the
  deactivation of the previous node and the \<^verbatim>\<open>push\<close> of line 494.
\<close>

definition recordChecks ::
    "ActivatedRouteSnapshot \<Rightarrow> ActivatedRouteSnapshot TreeNode option \<Rightarrow> RouterOutletMap option
      \<Rightarrow> ActivatedRouteSnapshot list \<Rightarrow> Check list \<Rightarrow> error + Check list" where
  "recordChecks future currNode parentOutletMap futurePath checks =
     (case currNode of
        None \<Rightarrow> Inr (checks @ [CanActivate futurePath])
      | Some n \<Rightarrow>
          if same_routeConfig future (val n) then
            (if \<not> shallowEqual (params future) (params (val n)) then
               (case outletOf parentOutletMap future of
                  None \<Rightarrow> Inl (TypeError ''component'')
                | Some ol \<Rightarrow>
                    Inr (checks @ [CanDeactivate (component_o ol) (Snapshot (val n)),
                                   CanActivate futurePath]))
             else Inr checks)
          else
            bindE
              (if component (val n) \<noteq> None
               then deactivateOutletAndItChildren (Snapshot (val n))
                      (outletOf parentOutletMap future) checks
               else deactivateOutletMap parentOutletMap checks)
              (\<lambda>checks'. Inr (checks' @ [CanActivate futurePath])))"

text \<open>
  \<^verbatim>\<open>traverseChildRoutes\<close> and \<^verbatim>\<open>traverseRoutes\<close>; \<open>traverseChildren\<close> is the
  first \<^verbatim>\<open>forEach\<close> of \<^verbatim>\<open>traverseChildRoutes\<close>, over the future children, and
  returns \<^verbatim>\<open>prevChildren\<close> with the visited slots deleted. \<^verbatim>\<open>traverseRoutes\<close>
  recurses with \<^verbatim>\<open>currNode\<close> when it reuses the node and with \<^verbatim>\<open>null\<close>
  otherwise.
\<close>

function traverseChildRoutes ::
    "ActivatedRouteSnapshot TreeNode \<Rightarrow> ActivatedRouteSnapshot TreeNode option
      \<Rightarrow> RouterOutletMap option \<Rightarrow> ActivatedRouteSnapshot list \<Rightarrow> Check list
      \<Rightarrow> error + Check list"
  and traverseChildren ::
    "ActivatedRouteSnapshot TreeNode list \<Rightarrow> (string \<times> ActivatedRouteSnapshot TreeNode) list
      \<Rightarrow> RouterOutletMap option \<Rightarrow> ActivatedRouteSnapshot list \<Rightarrow> Check list
      \<Rightarrow> error + (string \<times> ActivatedRouteSnapshot TreeNode) list \<times> Check list"
  and traverseRoutes ::
    "ActivatedRouteSnapshot TreeNode \<Rightarrow> ActivatedRouteSnapshot TreeNode option
      \<Rightarrow> RouterOutletMap option \<Rightarrow> ActivatedRouteSnapshot list \<Rightarrow> Check list
      \<Rightarrow> error + Check list"
where
  "traverseChildRoutes (TreeNode fv fcs) currNode om futurePath checks =
     bindE (traverseChildren fcs (nodeChildrenAsMap currNode outlet) om futurePath checks)
       (\<lambda>(prevChildren, checks'). deactivateRemaining prevChildren om checks')"
| "traverseChildren [] prevChildren om futurePath checks = Inr (prevChildren, checks)"
| "traverseChildren (c # cs) prevChildren om futurePath checks =
     bindE (traverseRoutes c (dict_get prevChildren (outlet (val c))) om
              (futurePath @ [val c]) checks)
       (\<lambda>checks'.
          traverseChildren cs (dict_delete (outlet (val c)) prevChildren) om futurePath checks')"
| "traverseRoutes (TreeNode future fcs) currNode parentOutletMap futurePath checks =
     bindE (recordChecks future currNode parentOutletMap futurePath checks)
       (\<lambda>checks'.
          traverseChildRoutes (TreeNode future fcs)
            (if reusingNode future currNode then currNode else None)
            (childOutletMap future parentOutletMap) futurePath checks')"
  by pat_completeness auto

termination
  by (relation "measure (\<lambda>x. case x of
         Inl (n, _) \<Rightarrow> 2 * size n + 1
       | Inr (Inl (cs, _)) \<Rightarrow> 2 * size_list size cs + 1
       | Inr (Inr (n, _)) \<Rightarrow> 2 * size n + 2)") auto

text \<open>
  \<^verbatim>\<open>traverse\<close>: \<open>curr\<close> is the root of the current state's snapshot, \<open>None\<close> when
  \<^verbatim>\<open>this.curr\<close> is \<^verbatim>\<open>null\<close>. The result is \<^verbatim>\<open>this.checks\<close>.
\<close>

definition traverse ::
    "ActivatedRouteSnapshot TreeNode \<Rightarrow> ActivatedRouteSnapshot TreeNode option
      \<Rightarrow> RouterOutletMap option \<Rightarrow> error + Check list" where
  "traverse futureRoot currRoot parentOutletMap =
     traverseChildRoutes futureRoot currRoot parentOutletMap [val futureRoot] []"

subsection \<open>The deactivation order, in the words of the specification\<close>






text \<open>
  An activate-check below a path: its own path goes through the path and is longer.
  Deactivate-checks have no path.
\<close>

definition belowPath :: "ActivatedRouteSnapshot list \<Rightarrow> Check \<Rightarrow> bool" where
  "belowPath futurePath c =
     (case c of
        CanActivate p \<Rightarrow>
          length futurePath < length p \<and> take (length futurePath) p = futurePath
      | CanDeactivate cmp r \<Rightarrow> True)"

definition isDeactivate :: "Check \<Rightarrow> bool" where
  "isDeactivate c = (case c of CanActivate p \<Rightarrow> False | CanDeactivate cmp r \<Rightarrow> True)"

text \<open>
  A result of the diff that only adds checks, each with the property \<open>P\<close>, to the
  checks it started from. A throw adds nothing.
\<close>

definition adds :: "(Check \<Rightarrow> bool) \<Rightarrow> Check list \<Rightarrow> error + Check list \<Rightarrow> bool" where
  "adds P checks r =
     (case r of
        Inl e \<Rightarrow> True
      | Inr checks' \<Rightarrow>
          take (length checks) checks' = checks \<and> list_all P (drop (length checks) checks'))"

subsection \<open>Observables\<close>

text \<open>
  An observable, seen from the moment it is subscribed. \<open>Done vs t\<close> delivers the values
  \<open>vs\<close> in the turn of the subscription and ends there (\<open>None\<close>: it completes;
  \<open>Some e\<close>: it fails with \<open>e\<close>). \<open>Wait vs ob\<close> delivers \<open>vs\<close> in that turn and goes on
  as \<open>ob\<close> in a later turn of the event loop. \<^verbatim>\<open>Observable.of\<close> and
  \<^verbatim>\<open>Observable.from\<close> of an array deliver everything in the turn of the subscription.
\<close>

datatype 'a Observable = Done "'a list" "error option" | Wait "'a list" "'a Observable"

definition Observable_of :: "'a \<Rightarrow> 'a Observable" where
  "Observable_of x = Done [x] None"

definition Observable_from :: "'a list \<Rightarrow> 'a Observable" where
  "Observable_from xs = Done xs None"

text \<open>
  \<^verbatim>\<open>Observable.fromPromise\<close>. A promise never answers in the turn in which it is
  subscribed, also when it is settled already: its value or its rejection arrives
  \<open>n\<close> turns after the next one, where \<open>n\<close> says how long the promise takes to settle.
\<close>

fun delayed :: "nat \<Rightarrow> 'a Observable \<Rightarrow> 'a Observable" where
  "delayed 0 ob = ob"
| "delayed (Suc n) ob = Wait [] (delayed n ob)"

definition Observable_fromPromise :: "nat \<Rightarrow> error + 'a \<Rightarrow> 'a Observable" where
  "Observable_fromPromise n p =
     Wait [] (delayed n (case p of Inl e \<Rightarrow> Done [] (Some e) | Inr v \<Rightarrow> Done [v] None))"

text \<open>
  The values an observable delivers in the turn of its subscription, all the values it
  delivers, and how it ends.
\<close>

fun now :: "'a Observable \<Rightarrow> 'a list" where
  "now (Done vs t) = vs"
| "now (Wait vs ob) = vs"

fun values_obs :: "'a Observable \<Rightarrow> 'a list" where
  "values_obs (Done vs t) = vs"
| "values_obs (Wait vs ob) = vs @ values_obs ob"

fun ending :: "'a Observable \<Rightarrow> error option" where
  "ending (Done vs t) = t"
| "ending (Wait vs ob) = ending ob"

definition delivered :: "'a Observable \<Rightarrow> 'a list \<times> error option" where
  "delivered ob = (values_obs ob, ending ob)"

text \<open>
  \<^verbatim>\<open>map\<close>: the callback is called for every value when the value is delivered, and
  a callback that throws fails the observable at that value.
\<close>

fun mapValues :: "('a \<Rightarrow> error + 'b) \<Rightarrow> 'a list \<Rightarrow> 'b list \<times> error option" where
  "mapValues f [] = ([], None)"
| "mapValues f (x # xs) =
     (case f x of
        Inl e \<Rightarrow> ([], Some e)
      | Inr y \<Rightarrow> (case mapValues f xs of (ys, t) \<Rightarrow> (y # ys, t)))"

fun map_obs :: "('a \<Rightarrow> error + 'b) \<Rightarrow> 'a Observable \<Rightarrow> 'b Observable" where
  "map_obs f (Done xs t) =
     (case mapValues f xs of
        (ys, Some e) \<Rightarrow> Done ys (Some e)
      | (ys, None) \<Rightarrow> Done ys t)"
| "map_obs f (Wait xs ob) =
     (case mapValues f xs of
        (ys, Some e) \<Rightarrow> Done ys (Some e)
      | (ys, None) \<Rightarrow> Wait ys (map_obs f ob))"

text \<open>
  Two observables merged, the first subscribed before the second and both in the same
  turn. In every turn what the first delivers comes before what the second delivers (the
  callbacks of promises that settle in the same turn run in the order in which they were
  registered). The merged observable fails as soon as one of the two fails, and then
  nothing of the other is delivered any more: when the first fails in the turn of its
  subscription, the second is not subscribed at all. It completes when both have
  completed.
\<close>

fun merge :: "'a Observable \<Rightarrow> 'a Observable \<Rightarrow> 'a Observable" where
  "merge (Done xs (Some e)) b = Done xs (Some e)"
| "merge (Done xs None) (Done ys t) = Done (xs @ ys) t"
| "merge (Done xs None) (Wait ys rb) = Wait (xs @ ys) rb"
| "merge (Wait xs ra) (Done ys (Some e)) = Done (xs @ ys) (Some e)"
| "merge (Wait xs ra) (Done ys None) = Wait (xs @ ys) ra"
| "merge (Wait xs ra) (Wait ys rb) = Wait (xs @ ys) (merge ra rb)"

text \<open>
  \<^verbatim>\<open>mergeAll\<close>: every inner observable is subscribed when the outer one delivers it,
  so the inner observables of one turn are all subscribed in that turn, in order, before
  anything that arrives later. An outer observable that fails (a callback of
  \<^verbatim>\<open>map\<close> has thrown) fails the merged one after the inner observables delivered
  before the failure have been subscribed. In router.ts every outer observable of
  \<^verbatim>\<open>mergeAll\<close> and \<^verbatim>\<open>mergeMap\<close> is an array, delivered in one turn, or
  the single value of \<^verbatim>\<open>checkGuards\<close>; for an outer observable that goes on in
  later turns, the inner observables subscribed before come first in every turn.
\<close>

fun mergeAll :: "'a Observable Observable \<Rightarrow> 'a Observable" where
  "mergeAll (Done obs t) = foldr merge obs (Done [] t)"
| "mergeAll (Wait obs ob) = foldr merge obs (Wait [] (mergeAll ob))"

text \<open>
  \<^verbatim>\<open>every\<close>: \<^verbatim>\<open>false\<close> at the first value that fails the test, in the turn in
  which that value is delivered and whatever follows it; otherwise \<^verbatim>\<open>true\<close> when the
  source completes, or the failure of the source.
\<close>

fun every :: "('a \<Rightarrow> bool) \<Rightarrow> 'a Observable \<Rightarrow> jsval Observable" where
  "every p (Done xs t) =
     (if list_all p xs
      then (case t of None \<Rightarrow> Done [JBool True] None | Some e \<Rightarrow> Done [] (Some e))
      else Done [JBool False] None)"
| "every p (Wait xs ob) =
     (if list_all p xs then Wait [] (every p ob) else Done [JBool False] None)"

text \<open>
  \<^verbatim>\<open>reduce((_, __) => _)\<close> with no seed: the first value, when the source completes.
\<close>

fun reduce_from :: "'a option \<Rightarrow> 'a Observable \<Rightarrow> 'a Observable" where
  "reduce_from acc (Done xs t) =
     (case t of
        Some e \<Rightarrow> Done [] (Some e)
      | None \<Rightarrow>
          (case acc of
             Some x \<Rightarrow> Done [x] None
           | None \<Rightarrow> (case xs of [] \<Rightarrow> Done [] None | x # xs' \<Rightarrow> Done [x] None)))"
| "reduce_from acc (Wait xs ob) =
     Wait [] (reduce_from
                (case acc of Some x \<Rightarrow> Some x | None \<Rightarrow> (case xs of [] \<Rightarrow> None | x # xs' \<Rightarrow> Some x))
                ob)"

definition reduce_first :: "'a Observable \<Rightarrow> 'a Observable" where
  "reduce_first ob = reduce_from None ob"

definition isTrue :: "jsval \<Rightarrow> bool" where
  "isTrue result = (result = JBool True)"

text \<open>\<^verbatim>\<open>andObservables\<close>.\<close>

definition andObservables :: "jsval Observable Observable \<Rightarrow> jsval Observable" where
  "andObservables observables = every isTrue (mergeAll observables)"

subsection \<open>PreActivation: running the guards\<close>

text \<open>
  What a guard or a resolver returns, and \<^verbatim>\<open>wrapIntoObservable\<close>. A promise is
  given by what it settles to and by the number of turns it takes to settle.
\<close>

datatype 'a Returned =
    ReturnsObservable "'a Observable"
  | ReturnsPromise nat "error + 'a"
  | Returns 'a

fun wrapIntoObservable :: "'a Returned \<Rightarrow> 'a Observable" where
  "wrapIntoObservable (ReturnsObservable ob) = ob"
| "wrapIntoObservable (ReturnsPromise n p) = Observable_fromPromise n p"
| "wrapIntoObservable (Returns v) = Observable_of v"

text \<open>
  The guards and resolvers behind the injector, which is not among the sources. Each
  field is the lookup \<^verbatim>\<open>getToken\<close> followed by the call of the guard, as the
  callbacks of \<^verbatim>\<open>runCanActivate\<close>, \<^verbatim>\<open>runCanActivateChild\<close> and
  \<^verbatim>\<open>runCanDeactivate\<close> make it: \<open>Inl e\<close> when the lookup or the call throws, the
  returned value otherwise. The router states \<^verbatim>\<open>this.future\<close> and
  \<^verbatim>\<open>this.curr\<close> that the calls also receive are fixed for one
  \<^verbatim>\<open>PreActivation\<close>. \<open>resolver\<close> is \<^verbatim>\<open>runResolve\<close>, modelled from the spec
  (its helpers are not among the sources): it waits for the resolvers of a node and
  merges their values into the node's data, or fails.
\<close>

record Guards =
  canActivateGuard :: "token \<Rightarrow> ActivatedRouteSnapshot \<Rightarrow> error + jsval Returned"
  canActivateChildGuard :: "token \<Rightarrow> ActivatedRouteSnapshot \<Rightarrow> error + jsval Returned"
  canDeactivateGuard :: "token \<Rightarrow> Object \<Rightarrow> ActivatedRouteSnapshot \<Rightarrow> error + jsval Returned"
  resolver :: "ActivatedRouteSnapshot \<Rightarrow> error option"

definition wrapped :: "error + jsval Returned \<Rightarrow> error + jsval Observable" where
  "wrapped r = (case r of Inl e \<Rightarrow> Inl e | Inr v \<Rightarrow> Inr (wrapIntoObservable v))"

text \<open>\<^verbatim>\<open>runCanActivate\<close>.\<close>

definition runCanActivate :: "Guards \<Rightarrow> ActivatedRouteSnapshot \<Rightarrow> jsval Observable" where
  "runCanActivate g future =
     (case (case routeConfig future of None \<Rightarrow> None | Some r \<Rightarrow> canActivate r) of
        None \<Rightarrow> Observable_of (JBool True)
      | Some cs \<Rightarrow>
          if length cs = 0 then Observable_of (JBool True)
          else andObservables
                 (map_obs (\<lambda>c. wrapped (canActivateGuard g c future)) (Observable_from cs)))"

text \<open>\<^verbatim>\<open>extractCanActivateChild\<close>; the result is \<open>{node: p, guards: canActivateChild}\<close>.\<close>

definition extractCanActivateChild ::
    "ActivatedRouteSnapshot \<Rightarrow> (ActivatedRouteSnapshot \<times> token list) option" where
  "extractCanActivateChild p =
     (case (case routeConfig p of None \<Rightarrow> None | Some r \<Rightarrow> canActivateChild r) of
        None \<Rightarrow> None
      | Some cs \<Rightarrow> if length cs = 0 then None else Some (p, cs))"

text \<open>
  \<^verbatim>\<open>runCanActivateChild\<close>, for a path that is not empty: \<open>butlast\<close> is
  \<^verbatim>\<open>path.slice(0, path.length - 1)\<close>, and the guards of every ancestor are called
  with the last node of the path.
\<close>

definition runCanActivateChild :: "Guards \<Rightarrow> ActivatedRouteSnapshot list \<Rightarrow> jsval Observable" where
  "runCanActivateChild g p =
     (let future = last p;
          canActivateChildGuards =
            filter (\<lambda>d. d \<noteq> None) (map extractCanActivateChild (rev (butlast p)))
      in andObservables
           (map_obs
              (\<lambda>d. Inr (andObservables
                         (map_obs (\<lambda>c. wrapped (canActivateChildGuard g c future))
                            (Observable_from (snd (the d))))))
              (Observable_from canActivateChildGuards)))"

text \<open>
  \<^verbatim>\<open>runCanDeactivate\<close>. A tree node in place of the snapshot has no
  \<^verbatim>\<open>_routeConfig\<close>, so no guard runs for it.
\<close>

definition runCanDeactivate :: "Guards \<Rightarrow> Object \<Rightarrow> RouteArg \<Rightarrow> jsval Observable" where
  "runCanDeactivate g cmp current =
     (case current of
        Node n \<Rightarrow> Observable_of (JBool True)
      | Snapshot s \<Rightarrow>
          (case (case routeConfig s of None \<Rightarrow> None | Some r \<Rightarrow> canDeactivate r) of
             None \<Rightarrow> Observable_of (JBool True)
           | Some cs \<Rightarrow>
               if length cs = 0 then Observable_of (JBool True)
               else every isTrue
                      (mergeAll
                         (map_obs (\<lambda>c. wrapped (canDeactivateGuard g c cmp s))
                            (Observable_from cs)))))"

text \<open>
  The callback of \<^verbatim>\<open>map\<close> in \<^verbatim>\<open>checkGuards\<close>. \<^verbatim>\<open>s.route\<close> is the last node
  of the path; for an empty path it is \<^verbatim>\<open>undefined\<close> and
  \<^verbatim>\<open>runCanActivate\<close> throws on \<^verbatim>\<open>future._routeConfig\<close>.
\<close>

fun runCheck :: "Guards \<Rightarrow> Check \<Rightarrow> error + jsval Observable" where
  "runCheck g (CanActivate p) =
     (if p = [] then Inl (TypeError ''_routeConfig'')
      else Inr (andObservables
                  (Observable_from [runCanActivate g (last p), runCanActivateChild g p])))"
| "runCheck g (CanDeactivate cmp r) = Inr (runCanDeactivate g cmp r)"

text \<open>\<^verbatim>\<open>checkGuards\<close>.\<close>

definition checkGuards :: "Guards \<Rightarrow> Check list \<Rightarrow> jsval Observable" where
  "checkGuards g checks =
     (if length checks = 0 then Observable_of (JBool True)
      else every isTrue (mergeAll (map_obs (runCheck g) (Observable_from checks))))"

text \<open>\<^verbatim>\<open>runResolve\<close> and \<^verbatim>\<open>resolveData\<close>.\<close>

definition runResolve :: "Guards \<Rightarrow> ActivatedRouteSnapshot \<Rightarrow> jsval Observable" where
  "runResolve g future =
     (case resolver g future of None \<Rightarrow> Done [JNull] None | Some e \<Rightarrow> Done [] (Some e))"

definition resolveData :: "Guards \<Rightarrow> Check list \<Rightarrow> jsval Observable" where
  "resolveData g checks =
     (if length checks = 0 then Observable_of JNull
      else reduce_first
             (mergeAll
                (map_obs
                   (\<lambda>s. case s of
                          CanActivate p \<Rightarrow>
                            if p = [] then Inl (TypeError ''_resolve'')
                            else Inr (runResolve g (last p))
                        | CanDeactivate cmp r \<Rightarrow> Inr (Observable_of JNull))
                   (Observable_from checks))))"

subsection \<open>The guards of a check, in the words of the specification\<close>

text \<open>
  The following definitions do not come from the code: they say in the words of the
  specification which guards a check evaluates and how their answers combine, and the
  theorems compare \<^verbatim>\<open>checkGuards\<close> with them.

  A call of a guard: the token, and what the guard is called with.
\<close>

datatype GuardCall =
    CallCanActivate token ActivatedRouteSnapshot
  | CallCanActivateChild token ActivatedRouteSnapshot
  | CallCanDeactivate token Object ActivatedRouteSnapshot

text \<open>The predicates a route-table entry configures, none when there is no entry.\<close>

definition predicates :: "(Route \<Rightarrow> token list option) \<Rightarrow> ActivatedRouteSnapshot \<Rightarrow> token list" where
  "predicates kind s =
     (case routeConfig s of
        None \<Rightarrow> []
      | Some r \<Rightarrow> (case kind r of None \<Rightarrow> [] | Some cs \<Rightarrow> cs))"

text \<open>
  An activate-check evaluates the node's own can-activate predicates and the
  can-activate-child predicates of all ancestors: collected root-to-node, excluding the
  node itself, reversed to nearest-ancestor-first, each with its own predicate list. A
  deactivate-check evaluates the can-deactivate predicates of the outgoing route, called
  with the outgoing component and the outgoing route; for a check that carries a tree
  node the outgoing route is the value of the node.
\<close>

definition ancestors :: "ActivatedRouteSnapshot list \<Rightarrow> ActivatedRouteSnapshot list" where
  "ancestors p = rev (butlast p)"

fun guardCalls :: "Check \<Rightarrow> GuardCall list" where
  "guardCalls (CanActivate p) =
     map (\<lambda>c. CallCanActivate c (last p)) (predicates canActivate (last p)) @
     concat (map (\<lambda>a. map (\<lambda>c. CallCanActivateChild c (last p)) (predicates canActivateChild a))
               (ancestors p))"
| "guardCalls (CanDeactivate cmp (Snapshot s)) =
     map (\<lambda>c. CallCanDeactivate c cmp s) (predicates canDeactivate s)"
| "guardCalls (CanDeactivate cmp (Node n)) =
     map (\<lambda>c. CallCanDeactivate c cmp (val n)) (predicates canDeactivate (val n))"

text \<open>
  A predicate may return a boolean, a deferred boolean or a stream of booleans; what it
  returns is normalised to the answers that arrive, turn by turn. A boolean that is
  returned arrives in the turn of the call. A deferred boolean arrives, or its rejection
  does, in a later turn and never in the turn of the call: one turn after the turn in
  which it settles.
\<close>

fun eventually :: "jsval Returned \<Rightarrow> jsval Observable" where
  "eventually (Returns v) = Done [v] None"
| "eventually (ReturnsPromise n (Inr v)) = delayed (Suc n) (Done [v] None)"
| "eventually (ReturnsPromise n (Inl e)) = delayed (Suc n) (Done [] (Some e))"
| "eventually (ReturnsObservable ob) = ob"

text \<open>What a call delivers: the answers of the predicate, or the failure of the call.\<close>

fun answer :: "Guards \<Rightarrow> GuardCall \<Rightarrow> jsval Observable" where
  "answer g (CallCanActivate c s) =
     (case canActivateGuard g c s of Inl e \<Rightarrow> Done [] (Some e) | Inr v \<Rightarrow> eventually v)"
| "answer g (CallCanActivateChild c s) =
     (case canActivateChildGuard g c s of Inl e \<Rightarrow> Done [] (Some e) | Inr v \<Rightarrow> eventually v)"
| "answer g (CallCanDeactivate c cmp s) =
     (case canDeactivateGuard g c cmp s of Inl e \<Rightarrow> Done [] (Some e) | Inr v \<Rightarrow> eventually v)"

text \<open>
  A predicate evaluates to true when it completes and every value it delivers is
  \<^verbatim>\<open>true\<close>. In the turn in which it is called, a predicate is denied when it
  delivers a value that is not \<^verbatim>\<open>true\<close> there, it fails with \<open>e\<close> when it throws
  or ends with the failure \<open>e\<close> there without having been denied, and it passes the turn
  when it does neither: it has answered \<^verbatim>\<open>true\<close>, or its answer has yet to arrive.
\<close>

definition evaluatesToTrue :: "jsval Observable \<Rightarrow> bool" where
  "evaluatesToTrue ob = (list_all isTrue (values_obs ob) \<and> ending ob = None)"

definition deniesNow :: "jsval Observable \<Rightarrow> bool" where
  "deniesNow ob = (\<not> list_all isTrue (now ob))"

fun failsNow :: "jsval Observable \<Rightarrow> error \<Rightarrow> bool" where
  "failsNow (Done vs t) e = (list_all isTrue vs \<and> t = Some e)"
| "failsNow (Wait vs ob) e = False"

fun passesNow :: "jsval Observable \<Rightarrow> bool" where
  "passesNow (Done vs t) = (list_all isTrue vs \<and> t = None)"
| "passesNow (Wait vs ob) = list_all isTrue vs"

text \<open>
  Logical AND over the predicates, short-circuiting, when the predicates are all called
  one after the other in one turn and their answers arrive over the turns. In every turn
  the answers are taken in the order of the calls: the first answer with a value that is
  not \<^verbatim>\<open>true\<close> denies, and an answer that fails before any is denied fails the
  conjunction; otherwise the answers that have not completed are awaited, and the result
  is \<^verbatim>\<open>true\<close> when none is left.
\<close>

datatype Verdict = Denied | Failed error | Pending "jsval Observable list"

fun turn :: "jsval Observable list \<Rightarrow> Verdict" where
  "turn [] = Pending []"
| "turn (ob # obs) =
     (if \<not> list_all isTrue (now ob) then Denied
      else (case ob of
              Done vs t \<Rightarrow> (case t of Some e \<Rightarrow> Failed e | None \<Rightarrow> turn obs)
            | Wait vs later \<Rightarrow>
                (case turn obs of
                   Pending rest \<Rightarrow> Pending (later # rest)
                 | Denied \<Rightarrow> Denied
                 | Failed e \<Rightarrow> Failed e)))"

function conjunction :: "jsval Observable list \<Rightarrow> jsval Observable" where
  "conjunction obs =
     (case turn obs of
        Denied \<Rightarrow> Done [JBool False] None
      | Failed e \<Rightarrow> Done [] (Some e)
      | Pending rest \<Rightarrow>
          if rest = [] then Done [JBool True] None else Wait [] (conjunction rest))"
  by pat_completeness auto
termination
proof (relation "measure (\<lambda>obs. sum_list (map size obs))")
  show "wf (measure (\<lambda>obs. sum_list (map size obs)))" by simp
next
  fix obs rest
  assume "turn obs = Pending rest" and "rest \<noteq> []"
  moreover have "turn obs = Pending rest \<Longrightarrow>
      sum_list (map size rest) \<le> sum_list (map size obs) \<and>
      (rest \<noteq> [] \<longrightarrow> sum_list (map size rest) < sum_list (map size obs))" for obs rest
  proof (induction obs arbitrary: rest)
    case Nil
    then show ?case by simp
  next
    case (Cons ob obs)
    then show ?case
      by (cases ob) (auto split: if_splits option.splits Verdict.splits)
  qed
  ultimately show "(rest, obs) \<in> measure (\<lambda>obs. sum_list (map size obs))"
    by simp
qed

declare conjunction.simps [simp del]

text \<open>
  A check as \<^verbatim>\<open>traverse\<close> records it: the path of an activate-check is not empty.
  A deactivate-check carries the outgoing snapshot, except the one recorded for a slot
  without a successor, which carries the tree node.
\<close>

fun recorded :: "Check \<Rightarrow> bool" where
  "recorded (CanActivate p) = (p \<noteq> [])"
| "recorded (CanDeactivate cmp r) = True"

fun carriesSnapshot :: "Check \<Rightarrow> bool" where
  "carriesSnapshot (CanActivate p) = True"
| "carriesSnapshot (CanDeactivate cmp (Snapshot s)) = True"
| "carriesSnapshot (CanDeactivate cmp (Node n)) = False"

subsection \<open>ActivateRoutes: the commit-phase diff\<close>

text \<open>
  What the commit phase does to its collaborators, in order:
  \<^verbatim>\<open>advanceActivatedRoute(route)\<close> (by the identity of the route),
  \<^verbatim>\<open>outlet.deactivate()\<close> (by the component that is unmounted),
  \<^verbatim>\<open>outlet.activate(future, ..)\<close> (by the slot and the identity of the route), and
  the two \<^verbatim>\<open>next\<close> of \<^verbatim>\<open>pushQueryParamsAndFragment\<close>.
\<close>

datatype Effect =
    Advance nat
  | Deactivated Object
  | Activated string nat
  | QueryParamsPushed Params
  | FragmentPushed "string option"

text \<open>
  Modelled from the spec: the UI-mount primitive \<^verbatim>\<open>outlet.activate\<close> and
  \<^verbatim>\<open>advanceActivatedRoute\<close> are not among the sources. Mounting a route's component
  gives the instance and the slots that the instance registers in the fresh slot
  registry injected into it, or fails; advancing a route moves its observable cell to
  the new snapshot.
\<close>

type_synonym Mount = "ActivatedRoute \<Rightarrow> error + Object \<times> (string \<times> RouterOutlet) list"

definition advanceActivatedRoute :: "ActivatedRoute \<Rightarrow> ActivatedRoute" where
  "advanceActivatedRoute route = route\<lparr>snapshot := futureSnapshot route\<rparr>"

text \<open>The value of \<^verbatim>\<open>PRIMARY_OUTLET\<close> of shared.ts; it only selects a message.\<close>

definition PRIMARY_OUTLET :: string where
  "PRIMARY_OUTLET = ''PRIMARY_OUTLET''"

text \<open>\<^verbatim>\<open>getOutlet\<close>.\<close>

definition quoted :: "string \<Rightarrow> string" where
  "quoted name = [CHR 0x27] @ name @ [CHR 0x27]"

definition getOutlet :: "RouterOutletMap option \<Rightarrow> ActivatedRoute \<Rightarrow> error + RouterOutlet" where
  "getOutlet om route =
     (case om of
        None \<Rightarrow> Inl (TypeError ''_outlets'')
      | Some m \<Rightarrow>
          (case dict_get (outlets m) (outlet_r route) of
             Some ol \<Rightarrow> Inr ol
           | None \<Rightarrow>
               (case component_r route of
                  None \<Rightarrow> Inl (TypeError ''name'')
                | Some componentName \<Rightarrow>
                    if outlet_r route = PRIMARY_OUTLET
                    then Inl (Error (''Cannot find primary outlet to load ''
                                       @ quoted componentName))
                    else Inl (Error (''Cannot find the outlet '' @ outlet_r route
                                       @ '' to load '' @ quoted componentName)))))"

text \<open>
  Outlets are objects that the code changes in place. An outlet lives in exactly one
  slot of one outlet map, so a change of an outlet is written back into the map that
  holds it: \<open>putOutlet\<close> replaces the outlet of a slot.
\<close>

definition putOutlet :: "RouterOutletMap option \<Rightarrow> string \<Rightarrow> RouterOutlet \<Rightarrow> RouterOutletMap option" where
  "putOutlet om k ol =
     (case om of
        None \<Rightarrow> None
      | Some m \<Rightarrow> Some (RouterOutletMap (dict_set k ol (outlets m))))"

text \<open>
  \<^verbatim>\<open>deactivateOutletAndItChildren\<close> and \<^verbatim>\<open>deactivateOutletMap\<close> of
  \<^verbatim>\<open>ActivateRoutes\<close>; \<open>deactivateOutlets_AR\<close> is the \<^verbatim>\<open>forEach\<close>. The result
  is the failure, if any, the outlets as the calls leave them, and the effects so far.
  Modelled from the spec: \<^verbatim>\<open>outlet.deactivate()\<close> unmounts the component, after which
  the slot is not activated and has no nested registry.
\<close>

function deactivateOutletAndItChildren_AR ::
    "RouterOutlet option \<Rightarrow> Effect list \<Rightarrow> error option \<times> RouterOutlet option \<times> Effect list"
  and deactivateOutletMap_AR ::
    "RouterOutletMap option \<Rightarrow> Effect list \<Rightarrow> error option \<times> RouterOutletMap option \<times> Effect list"
  and deactivateOutlets_AR ::
    "(string \<times> RouterOutlet) list \<Rightarrow> Effect list
      \<Rightarrow> error option \<times> (string \<times> RouterOutlet) list \<times> Effect list"
where
  "deactivateOutletAndItChildren_AR None effects = (None, None, effects)"
| "deactivateOutletAndItChildren_AR (Some (RouterOutlet act cmp ar om)) effects =
     (if act then
        (case deactivateOutletMap_AR om effects of
           (Some e, om', effects') \<Rightarrow> (Some e, Some (RouterOutlet act cmp ar om'), effects')
         | (None, om', effects') \<Rightarrow>
             (None, Some (RouterOutlet False cmp ar None), effects' @ [Deactivated cmp]))
      else (None, Some (RouterOutlet act cmp ar om), effects))"
| "deactivateOutletMap_AR None effects = (Some (TypeError ''_outlets''), None, effects)"
| "deactivateOutletMap_AR (Some (RouterOutletMap os)) effects =
     (case deactivateOutlets_AR os effects of
        (e, os', effects') \<Rightarrow> (e, Some (RouterOutletMap os'), effects'))"
| "deactivateOutlets_AR [] effects = (None, [], effects)"
| "deactivateOutlets_AR ((k, v) # rest) effects =
     (case deactivateOutletAndItChildren_AR (Some v) effects of
        (Some e, v', effects') \<Rightarrow> (Some e, (k, case v' of None \<Rightarrow> v | Some x \<Rightarrow> x) # rest, effects')
      | (None, v', effects') \<Rightarrow>
          (case deactivateOutlets_AR rest effects' of
             (e, rest', effects'') \<Rightarrow>
               (e, (k, case v' of None \<Rightarrow> v | Some x \<Rightarrow> x) # rest', effects'')))"
  by pat_completeness auto

termination
  by (relation "measure (\<lambda>x. case x of
         Inl (ol, _) \<Rightarrow> size_option size ol
       | Inr (Inl (om, _)) \<Rightarrow> size_option size om
       | Inr (Inr (os, _)) \<Rightarrow> size_list (size_prod (\<lambda>_. 0) size) os)") auto

text \<open>
  The second \<^verbatim>\<open>forEach\<close> of \<^verbatim>\<open>activateChildRoutes\<close>: the slot of every
  previous child that no future child took is deactivated.
\<close>

fun deactivateRemaining_AR ::
    "(string \<times> ActivatedRoute TreeNode) list \<Rightarrow> RouterOutletMap option \<Rightarrow> Effect list
      \<Rightarrow> error option \<times> RouterOutletMap option \<times> Effect list" where
  "deactivateRemaining_AR [] om effects = (None, om, effects)"
| "deactivateRemaining_AR ((k, v) # rest) None effects = (Some (TypeError ''_outlets''), None, effects)"
| "deactivateRemaining_AR ((k, v) # rest) (Some m) effects =
     (case deactivateOutletAndItChildren_AR (dict_get (outlets m) k) effects of
        (e, None, effects') \<Rightarrow>
          (if e = None then deactivateRemaining_AR rest (Some m) effects'
           else (e, Some m, effects'))
      | (e, Some ol, effects') \<Rightarrow>
          (if e = None then deactivateRemaining_AR rest (putOutlet (Some m) k ol) effects'
           else (e, putOutlet (Some m) k ol, effects')))"

text \<open>
  \<^verbatim>\<open>placeComponentIntoOutlet\<close>: \<^verbatim>\<open>outlet.activate(future, .., outletMap)\<close> with
  the fresh \<^verbatim>\<open>outletMap\<close>. Which factory resolver and injector the call passes on
  (\<^verbatim>\<open>closestLoadedConfig\<close>) has no part in the diff and is left out. The result is
  the outlet with the component mounted, holding the fresh map and what the component
  registered in it.
\<close>

definition placeComponentIntoOutlet ::
    "Mount \<Rightarrow> ActivatedRoute \<Rightarrow> RouterOutlet \<Rightarrow> error + RouterOutlet" where
  "placeComponentIntoOutlet mount future ol =
     (case mount future of
        Inl e \<Rightarrow> Inl e
      | Inr (instance, registered) \<Rightarrow>
          Inr (RouterOutlet True instance future (Some (RouterOutletMap registered))))"

text \<open>
  The part of \<^verbatim>\<open>activateRoutes\<close> before it recurses. \<open>reusingRoute\<close> is the test
  \<^verbatim>\<open>future === curr\<close>. \<open>enterRoute\<close> returns the failure, if any, the parent outlet
  map as it is left, and the effects.

  In the reusing branch the route is advanced; the outlet that holds this very route
  sees the advanced route, since it holds the same object.

  In the other branch the previous node's outlet (or, for a componentless previous node,
  the whole parent outlet map) is deactivated, the route is advanced, and a route with a
  component is placed into its outlet.
\<close>

definition reusingRoute :: "ActivatedRoute \<Rightarrow> ActivatedRoute TreeNode option \<Rightarrow> bool" where
  "reusingRoute future currNode =
     (case currNode of None \<Rightarrow> False | Some n \<Rightarrow> ar_ref future = ar_ref (val n))"

definition leaveRoute ::
    "ActivatedRoute \<Rightarrow> ActivatedRoute TreeNode option \<Rightarrow> RouterOutletMap option \<Rightarrow> Effect list
      \<Rightarrow> error option \<times> RouterOutletMap option \<times> Effect list" where
  "leaveRoute future currNode parentOutletMap effects =
     (case currNode of
        None \<Rightarrow> (None, parentOutletMap, effects)
      | Some n \<Rightarrow>
          if component_r (val n) \<noteq> None then
            (case getOutlet parentOutletMap future of
               Inl e \<Rightarrow> (Some e, parentOutletMap, effects)
             | Inr ol \<Rightarrow>
                 (case deactivateOutletAndItChildren_AR (Some ol) effects of
                    (e, None, effects') \<Rightarrow> (e, parentOutletMap, effects')
                  | (e, Some ol', effects') \<Rightarrow>
                      (e, putOutlet parentOutletMap (outlet_r future) ol', effects')))
          else deactivateOutletMap_AR parentOutletMap effects)"

definition enterRoute ::
    "Mount \<Rightarrow> ActivatedRoute \<Rightarrow> ActivatedRoute TreeNode option \<Rightarrow> RouterOutletMap option
      \<Rightarrow> Effect list \<Rightarrow> error option \<times> RouterOutletMap option \<times> Effect list" where
  "enterRoute mount future currNode parentOutletMap effects =
     (if reusingRoute future currNode then
        (if component_r future \<noteq> None then
           (case getOutlet parentOutletMap future of
              Inl e \<Rightarrow> (Some e, parentOutletMap, effects @ [Advance (ar_ref future)])
            | Inr ol \<Rightarrow>
                (None,
                 (if ar_ref (activatedRoute ol) = ar_ref future
                  then putOutlet parentOutletMap (outlet_r future)
                         (RouterOutlet (isActivated ol) (component_o ol)
                            (advanceActivatedRoute future) (outletMap ol))
                  else parentOutletMap),
                 effects @ [Advance (ar_ref future)]))
         else (None, parentOutletMap, effects @ [Advance (ar_ref future)]))
      else
        (case leaveRoute future currNode parentOutletMap effects of
           (Some e, om, effects') \<Rightarrow> (Some e, om, effects')
         | (None, om, effects') \<Rightarrow>
             if component_r future \<noteq> None then
               (case getOutlet om future of
                  Inl e \<Rightarrow> (Some e, om, effects' @ [Advance (ar_ref future)])
                | Inr ol \<Rightarrow>
                    (case placeComponentIntoOutlet mount (advanceActivatedRoute future) ol of
                       Inl e \<Rightarrow> (Some e, om, effects' @ [Advance (ar_ref future)])
                     | Inr ol' \<Rightarrow>
                         (None, putOutlet om (outlet_r future) ol',
                          effects' @ [Advance (ar_ref future),
                                      Activated (outlet_r future) (ar_ref future)])))
             else (None, om, effects' @ [Advance (ar_ref future)])))"

text \<open>
  The outlet map that \<^verbatim>\<open>activateRoutes\<close> hands to \<^verbatim>\<open>activateChildRoutes\<close>:
  \<^verbatim>\<open>outlet.outletMap\<close> of the route's outlet for a route with a component (in the
  reusing branch the one the outlet has, in the other the fresh one), and
  \<^verbatim>\<open>parentOutletMap\<close> for a componentless route. \<open>putChildMap\<close> writes the map
  back after the children have changed it.
\<close>

definition childMap_AR :: "ActivatedRoute \<Rightarrow> RouterOutletMap option \<Rightarrow> RouterOutletMap option" where
  "childMap_AR future parentOutletMap =
     (if component_r future \<noteq> None
      then (case parentOutletMap of
              None \<Rightarrow> None
            | Some m \<Rightarrow>
                (case dict_get (outlets m) (outlet_r future) of
                   None \<Rightarrow> None
                 | Some ol \<Rightarrow> outletMap ol))
      else parentOutletMap)"

definition putChildMap ::
    "ActivatedRoute \<Rightarrow> RouterOutletMap option \<Rightarrow> RouterOutletMap option \<Rightarrow> RouterOutletMap option" where
  "putChildMap future parentOutletMap childMap =
     (if component_r future \<noteq> None
      then (case parentOutletMap of
              None \<Rightarrow> None
            | Some m \<Rightarrow>
                (case dict_get (outlets m) (outlet_r future) of
                   None \<Rightarrow> Some m
                 | Some ol \<Rightarrow>
                     putOutlet (Some m) (outlet_r future)
                       (RouterOutlet (isActivated ol) (component_o ol) (activatedRoute ol) childMap)))
      else childMap)"

text \<open>
  \<^verbatim>\<open>activateChildRoutes\<close> and \<^verbatim>\<open>activateRoutes\<close>; \<open>activateChildren\<close> is the
  first \<^verbatim>\<open>forEach\<close> of \<^verbatim>\<open>activateChildRoutes\<close>.
\<close>

function activateChildRoutes ::
    "Mount \<Rightarrow> ActivatedRoute TreeNode \<Rightarrow> ActivatedRoute TreeNode option
      \<Rightarrow> RouterOutletMap option \<Rightarrow> Effect list
      \<Rightarrow> error option \<times> RouterOutletMap option \<times> Effect list"
  and activateChildren ::
    "Mount \<Rightarrow> ActivatedRoute TreeNode list \<Rightarrow> (string \<times> ActivatedRoute TreeNode) list
      \<Rightarrow> RouterOutletMap option \<Rightarrow> Effect list
      \<Rightarrow> error option \<times> (string \<times> ActivatedRoute TreeNode) list
          \<times> RouterOutletMap option \<times> Effect list"
  and activateRoutes ::
    "Mount \<Rightarrow> ActivatedRoute TreeNode \<Rightarrow> ActivatedRoute TreeNode option
      \<Rightarrow> RouterOutletMap option \<Rightarrow> Effect list
      \<Rightarrow> error option \<times> RouterOutletMap option \<times> Effect list"
where
  "activateChildRoutes mount (TreeNode fv fcs) currNode om effects =
     (case activateChildren mount fcs (nodeChildrenAsMap currNode outlet_r) om effects of
        (Some e, prevChildren, om', effects') \<Rightarrow> (Some e, om', effects')
      | (None, prevChildren, om', effects') \<Rightarrow> deactivateRemaining_AR prevChildren om' effects')"
| "activateChildren mount [] prevChildren om effects = (None, prevChildren, om, effects)"
| "activateChildren mount (c # cs) prevChildren om effects =
     (case activateRoutes mount c (dict_get prevChildren (outlet_r (val c))) om effects of
        (Some e, om', effects') \<Rightarrow> (Some e, prevChildren, om', effects')
      | (None, om', effects') \<Rightarrow>
          activateChildren mount cs (dict_delete (outlet_r (val c)) prevChildren) om' effects')"
| "activateRoutes mount (TreeNode future fcs) currNode parentOutletMap effects =
     (case enterRoute mount future currNode parentOutletMap effects of
        (Some e, om, effects') \<Rightarrow> (Some e, om, effects')
      | (None, om, effects') \<Rightarrow>
          (case activateChildRoutes mount (TreeNode future fcs)
                  (if reusingRoute future currNode then currNode else None)
                  (childMap_AR future om) effects' of
             (e, childMap, effects'') \<Rightarrow> (e, putChildMap future om childMap, effects'')))"
  by pat_completeness auto

termination
  by (relation "measure (\<lambda>x. case x of
         Inl (_, n, _) \<Rightarrow> 2 * size n + 1
       | Inr (Inl (_, cs, _)) \<Rightarrow> 2 * size_list size cs + 1
       | Inr (Inr (_, n, _)) \<Rightarrow> 2 * size n + 2)") auto

text \<open>
  The router state: the tree of live routes, the snapshot it was made from, and the
  current values of the query-parameter and fragment cells.
\<close>

record RouterStateSnapshot =
  root_ss :: "ActivatedRouteSnapshot TreeNode"
  queryParams_ss :: Params
  fragment_ss :: "string option"

record RouterState =
  root_s :: "ActivatedRoute TreeNode"
  snapshot_s :: RouterStateSnapshot
  queryParams_s :: Params
  fragment_s :: "string option"

text \<open>\<^verbatim>\<open>pushQueryParamsAndFragment\<close>.\<close>

definition pushQueryParamsAndFragment :: "RouterState \<Rightarrow> Effect list \<Rightarrow> RouterState \<times> Effect list" where
  "pushQueryParamsAndFragment state effects =
     (let (state1, effects1) =
            (if \<not> shallowEqual (queryParams_ss (snapshot_s state)) (queryParams_s state)
             then (state\<lparr>queryParams_s := queryParams_ss (snapshot_s state)\<rparr>,
                   effects @ [QueryParamsPushed (queryParams_ss (snapshot_s state))])
             else (state, effects))
      in if fragment_ss (snapshot_s state1) \<noteq> fragment_s state1
         then (state1\<lparr>fragment_s := fragment_ss (snapshot_s state1)\<rparr>,
               effects1 @ [FragmentPushed (fragment_ss (snapshot_s state1))])
         else (state1, effects1))"

text \<open>
  \<^verbatim>\<open>new ActivateRoutes(futureState, currState).activate(parentOutletMap)\<close>. The
  result is the failure, if any, the future state and the outlet map as the call leaves
  them, and the effects in order.
\<close>

definition activate ::
    "Mount \<Rightarrow> RouterState \<Rightarrow> RouterState option \<Rightarrow> RouterOutletMap option
      \<Rightarrow> error option \<times> RouterState \<times> RouterOutletMap option \<times> Effect list" where
  "activate mount futureState currState parentOutletMap =
     (let futureRoot = root_s futureState;
          currRoot = map_option root_s currState;
          (state', effects) = pushQueryParamsAndFragment futureState []
      in case activateChildRoutes mount futureRoot currRoot parentOutletMap
                (effects @ [Advance (ar_ref (val futureRoot))]) of
           (e, om, effects') \<Rightarrow> (e, state', om, effects'))"

subsection \<open>Router: scheduling and running a navigation\<close>

datatype Event =
    NavigationStart nat string
  | NavigationEnd nat string string
  | NavigationCancel nat string
  | NavigationError nat string error
  | RoutesRecognized nat string string RouterStateSnapshot

text \<open>
  Modelled from the spec: the location collaborator (\<^verbatim>\<open>Location\<close> of
  @angular/common) with \<^verbatim>\<open>go(path)\<close>, \<^verbatim>\<open>replaceState(path)\<close> and
  \<^verbatim>\<open>isCurrentPathEqualTo(path)\<close>. The record holds the current path and every
  update the router made, in order.
\<close>

datatype LocationCall = Go string | ReplaceState string

record Location =
  currentPath :: string
  calls :: "LocationCall list"

definition go :: "string \<Rightarrow> Location \<Rightarrow> Location" where
  "go p l = l\<lparr>currentPath := p, calls := calls l @ [Go p]\<rparr>"

definition replaceState :: "string \<Rightarrow> Location \<Rightarrow> Location" where
  "replaceState p l = l\<lparr>currentPath := p, calls := calls l @ [ReplaceState p]\<rparr>"

definition isCurrentPathEqualTo :: "Location \<Rightarrow> string \<Rightarrow> bool" where
  "isCurrentPathEqualTo l p = (currentPath l = p)"

text \<open>
  The fields of \<^verbatim>\<open>Router\<close> that a navigation reads or writes. \<open>routerEvents\<close> is
  what has been emitted on the subject, in order; \<open>effects\<close> is what the commit phases
  have done to the UI. The type \<open>'u\<close> is \<^verbatim>\<open>UrlTree\<close>.
\<close>

record 'u Router =
  currentUrlTree :: 'u
  currentRouterState :: RouterState
  navigationId :: nat
  routerEvents :: "Event list"
  location :: Location
  outletMap_r :: RouterOutletMap
  effects_r :: "Effect list"

text \<open>
  The collaborators of one run of the pipeline, none of them among the sources:
  \<^verbatim>\<open>applyRedirects\<close>, \<^verbatim>\<open>recognize\<close>, \<^verbatim>\<open>resolve\<close> (each an eventual value
  or a failure), \<^verbatim>\<open>createRouterState\<close>, the guards and resolvers behind the
  injector, and the UI-mount primitive.
\<close>

record 'u Collaborators =
  applyRedirects :: "'u \<Rightarrow> error + 'u"
  recognize :: "'u \<Rightarrow> error + RouterStateSnapshot"
  resolve :: "RouterStateSnapshot \<Rightarrow> error + RouterStateSnapshot"
  createRouterState :: "RouterStateSnapshot \<Rightarrow> RouterState \<Rightarrow> RouterState"
  guards :: Guards
  mount :: Mount

text \<open>How the promise of a navigation settles; \<open>None\<close> is \<^verbatim>\<open>undefined\<close>.\<close>

datatype Settlement = Resolved "bool option" | Rejected error

definition emit :: "Event \<Rightarrow> 'u Router \<Rightarrow> 'u Router" where
  "emit ev r = r\<lparr>routerEvents := routerEvents r @ [ev]\<rparr>"

text \<open>
  \<^verbatim>\<open>scheduleNavigation\<close>, up to the deferred call: the result is the \<^verbatim>\<open>id\<close> that
  the deferred \<^verbatim>\<open>runNavigate(url, preventPushState, id)\<close> will carry. \<open>serializeUrl\<close>
  is the URL serializer.
\<close>

definition scheduleNavigation :: "('u \<Rightarrow> string) \<Rightarrow> 'u \<Rightarrow> 'u Router \<Rightarrow> nat \<times> 'u Router" where
  "scheduleNavigation serializeUrl url r =
     (let r1 = r\<lparr>navigationId := navigationId r + 1\<rparr>;
          ident = navigationId r1
      in (ident, emit (NavigationStart ident (serializeUrl url)) r1))"

text \<open>
  \<^verbatim>\<open>runNavigate\<close>, lines 302 to 306: a navigation that is no longer the latest when
  it starts to run. \<open>None\<close>: the test fails and the navigation goes on.
\<close>

definition runNavigate_superseded ::
    "('u \<Rightarrow> string) \<Rightarrow> 'u \<Rightarrow> nat \<Rightarrow> 'u Router \<Rightarrow> (Settlement \<times> 'u Router) option" where
  "runNavigate_superseded serializeUrl url ident r =
     (if ident \<noteq> navigationId r then
        Some (Resolved (Some False),
              emit (NavigationCancel ident (serializeUrl url))
                (r\<lparr>location := go (serializeUrl (currentUrlTree r)) (location r)\<rparr>))
      else None)"

definition truthy :: "jsval \<Rightarrow> bool" where
  "truthy v = (case v of JBool b \<Rightarrow> b | JUndefined \<Rightarrow> False | JNull \<Rightarrow> False
                 | JNum n \<Rightarrow> n \<noteq> 0 | JStr s \<Rightarrow> s \<noteq> [])"

text \<open>
  The observable chain of \<^verbatim>\<open>runNavigate\<close>, lines 318 to 352, up to the
  \<^verbatim>\<open>forEach\<close>. The result is the router (the chain emits
  \<^verbatim>\<open>RoutesRecognized\<close>) and either the failure of a stage or \<^verbatim>\<open>appliedUrl\<close>,
  \<^verbatim>\<open>state\<close> and the observable of \<^verbatim>\<open>shouldActivate\<close> that \<^verbatim>\<open>forEach\<close>
  consumes.
\<close>

definition shouldActivate_obs :: "Guards \<Rightarrow> Check list \<Rightarrow> jsval Observable" where
  "shouldActivate_obs g checks =
     mergeAll
       (map_obs
          (\<lambda>shouldActivate.
             if truthy shouldActivate
             then Inr (map_obs (\<lambda>_. Inr shouldActivate) (resolveData g checks))
             else Inr (Observable_of shouldActivate))
          (checkGuards g checks))"

definition pipeline ::
    "('u \<Rightarrow> string) \<Rightarrow> 'u Collaborators \<Rightarrow> 'u \<Rightarrow> nat \<Rightarrow> 'u Router
      \<Rightarrow> 'u Router \<times> (error + 'u \<times> RouterState \<times> jsval Observable)" where
  "pipeline serializeUrl c url ident r =
     (case applyRedirects c url of
        Inl e \<Rightarrow> (r, Inl e)
      | Inr appliedUrl \<Rightarrow>
          (case recognize c appliedUrl of
             Inl e \<Rightarrow> (r, Inl e)
           | Inr newRouterStateSnapshot \<Rightarrow>
               (let r1 = emit (RoutesRecognized ident (serializeUrl url)
                                 (serializeUrl appliedUrl) newRouterStateSnapshot) r
                in case resolve c newRouterStateSnapshot of
                     Inl e \<Rightarrow> (r1, Inl e)
                   | Inr routerStateSnapshot \<Rightarrow>
                       (let state = createRouterState c routerStateSnapshot (currentRouterState r1)
                        in case traverse (root_ss (snapshot_s state))
                                  (Some (root_ss (snapshot_s (currentRouterState r1))))
                                  (Some (outletMap_r r1)) of
                             Inl e \<Rightarrow> (r1, Inl e)
                           | Inr checks \<Rightarrow>
                               (r1, Inr (appliedUrl, state,
                                         shouldActivate_obs (guards c) checks))))))"

text \<open>
  The router after lines 360 to 363: the new pair is assigned, and
  \<^verbatim>\<open>ActivateRoutes.activate\<close> has left the state, the outlet map and its effects
  as they are (it changes the objects in place, also when it throws).
\<close>

definition adopt ::
    "'u \<Rightarrow> RouterState \<Rightarrow> RouterOutletMap option \<Rightarrow> Effect list \<Rightarrow> 'u Router \<Rightarrow> 'u Router" where
  "adopt appliedUrl state' om effects r =
     r\<lparr>currentUrlTree := appliedUrl, currentRouterState := state',
       outletMap_r := (case om of None \<Rightarrow> outletMap_r r | Some m \<Rightarrow> m),
       effects_r := effects_r r @ effects\<rparr>"

text \<open>
  The callback of \<^verbatim>\<open>forEach\<close>, lines 353 to 374, for one value of
  \<^verbatim>\<open>shouldActivate\<close>. The state is the router and \<^verbatim>\<open>navigationIsSuccessful\<close>;
  a failure is a throw, with the router as the throw leaves it.
\<close>

definition commit ::
    "('u \<Rightarrow> string) \<Rightarrow> Mount \<Rightarrow> 'u \<Rightarrow> bool \<Rightarrow> nat \<Rightarrow> RouterState \<Rightarrow> 'u \<Rightarrow> RouterState
      \<Rightarrow> jsval \<Rightarrow> 'u Router \<times> bool option \<Rightarrow> error option \<times> 'u Router \<times> bool option" where
  "commit serializeUrl mnt url preventPushState ident storedState appliedUrl state
      shouldActivate rn =
     (let r = fst rn in
      if \<not> truthy shouldActivate \<or> ident \<noteq> navigationId r then
        (None, emit (NavigationCancel ident (serializeUrl url)) r, Some False)
      else
        (case activate mnt state (Some storedState) (Some (outletMap_r r)) of
           (e, state', om, effects) \<Rightarrow>
             (let r3 = adopt appliedUrl state' om effects r
              in if e \<noteq> None then (e, r3, snd rn)
                 else if \<not> preventPushState then
                   (let p = serializeUrl appliedUrl in
                    if isCurrentPathEqualTo (location r3) p
                    then (None, r3\<lparr>location := replaceState p (location r3)\<rparr>, Some True)
                    else (None, r3\<lparr>location := go p (location r3)\<rparr>, Some True))
                 else (None, r3, Some True))))"

text \<open>
  \<^verbatim>\<open>forEach\<close>: the callback runs for every value, in order; a throw of the callback
  or the failure of the observable rejects the promise of \<^verbatim>\<open>forEach\<close>.
\<close>

fun forEach_now ::
    "('a \<Rightarrow> 's \<Rightarrow> error option \<times> 's) \<Rightarrow> 'a list \<Rightarrow> 's \<Rightarrow> error option \<times> 's" where
  "forEach_now f [] s = (None, s)"
| "forEach_now f (x # xs) s =
     (case f x s of
        (Some e, s') \<Rightarrow> (Some e, s')
      | (None, s') \<Rightarrow> forEach_now f xs s')"

fun forEach_obs ::
    "('a \<Rightarrow> 's \<Rightarrow> error option \<times> 's) \<Rightarrow> 'a Observable \<Rightarrow> 's \<Rightarrow> error option \<times> 's" where
  "forEach_obs f (Done xs t) s =
     (case forEach_now f xs s of
        (Some e, s') \<Rightarrow> (Some e, s')
      | (None, s') \<Rightarrow> (t, s'))"
| "forEach_obs f (Wait xs ob) s =
     (case forEach_now f xs s of
        (Some e, s') \<Rightarrow> (Some e, s')
      | (None, s') \<Rightarrow> forEach_obs f ob s')"

text \<open>
  The two callbacks of \<^verbatim>\<open>then\<close>, lines 375 to 386. \<open>appliedUrl\<close> is \<open>None\<close> while
  the variable is \<^verbatim>\<open>undefined\<close>.
\<close>

definition settle_success ::
    "('u \<Rightarrow> string) \<Rightarrow> 'u \<Rightarrow> nat \<Rightarrow> 'u \<Rightarrow> 'u Router \<times> bool option \<Rightarrow> Settlement \<times> 'u Router" where
  "settle_success serializeUrl url ident appliedUrl rn =
     (Resolved (snd rn),
      emit (NavigationEnd ident (serializeUrl url) (serializeUrl appliedUrl)) (fst rn))"

definition settle_failure ::
    "('u \<Rightarrow> string) \<Rightarrow> 'u \<Rightarrow> nat \<Rightarrow> RouterState \<Rightarrow> 'u \<Rightarrow> error \<Rightarrow> 'u Router
      \<Rightarrow> Settlement \<times> 'u Router" where
  "settle_failure serializeUrl url ident storedState storedUrl e r =
     (let r1 = r\<lparr>currentRouterState := storedState\<rparr>;
          r2 = r1\<lparr>currentUrlTree := storedUrl\<rparr>
      in (Rejected e, emit (NavigationError ident (serializeUrl url) e) r2))"

text \<open>
  The promise that \<^verbatim>\<open>forEach\<close> returns, lines 318 to 374: \<open>Inl\<close> when a stage of
  the chain fails or the callback throws, with the cause and the router as the failure
  leaves it; \<open>Inr\<close> when the chain completes, with \<^verbatim>\<open>appliedUrl\<close>, the router and
  \<^verbatim>\<open>navigationIsSuccessful\<close>.
\<close>

definition forEach_promise ::
    "('u \<Rightarrow> string) \<Rightarrow> 'u Collaborators \<Rightarrow> 'u \<Rightarrow> bool \<Rightarrow> nat \<Rightarrow> RouterState \<Rightarrow> 'u Router
      \<Rightarrow> (error \<times> 'u Router) + ('u \<times> 'u Router \<times> bool option)" where
  "forEach_promise serializeUrl c url preventPushState ident storedState r =
     (case pipeline serializeUrl c url ident r of
        (r1, Inl e) \<Rightarrow> Inl (e, r1)
      | (r1, Inr (appliedUrl, state, shouldActivates)) \<Rightarrow>
          (case forEach_obs
                  (\<lambda>shouldActivate rn.
                     case commit serializeUrl (mount c) url preventPushState ident storedState
                            appliedUrl state shouldActivate rn of
                       (e, r', n') \<Rightarrow> (e, (r', n')))
                  shouldActivates (r1, None) of
             (Some e, rn) \<Rightarrow> Inl (e, fst rn)
           | (None, rn) \<Rightarrow> Inr (appliedUrl, rn)))"


text \<open>
  The body of the promise of \<^verbatim>\<open>runNavigate\<close>, lines 308 to 387, with
  \<^verbatim>\<open>storedState\<close> and \<^verbatim>\<open>storedUrl\<close> as lines 315 and 316 captured them.
\<close>

definition runNavigate_body ::
    "('u \<Rightarrow> string) \<Rightarrow> 'u Collaborators \<Rightarrow> 'u \<Rightarrow> bool \<Rightarrow> nat \<Rightarrow> RouterState \<Rightarrow> 'u
      \<Rightarrow> 'u Router \<Rightarrow> Settlement \<times> 'u Router" where
  "runNavigate_body serializeUrl c url preventPushState ident storedState storedUrl r =
     (case forEach_promise serializeUrl c url preventPushState ident storedState r of
        Inl (e, r') \<Rightarrow> settle_failure serializeUrl url ident storedState storedUrl e r'
      | Inr (appliedUrl, rn) \<Rightarrow> settle_success serializeUrl url ident appliedUrl rn)"

text \<open>
  \<^verbatim>\<open>runNavigate\<close> when nothing else runs between its start and its end.
\<close>

definition runNavigate ::
    "('u \<Rightarrow> string) \<Rightarrow> 'u Collaborators \<Rightarrow> 'u \<Rightarrow> bool \<Rightarrow> nat \<Rightarrow> 'u Router
      \<Rightarrow> Settlement \<times> 'u Router" where
  "runNavigate serializeUrl c url preventPushState ident r =
     (case runNavigate_superseded serializeUrl url ident r of
        Some done \<Rightarrow> done
      | None \<Rightarrow>
          runNavigate_body serializeUrl c url preventPushState ident
            (currentRouterState r) (currentUrlTree r) r)"

subsection \<open>Navigations that overlap\<close>

text \<open>
  \<^verbatim>\<open>scheduleNavigation\<close> defers \<^verbatim>\<open>runNavigate\<close> to a later turn, and the stages
  of the pipeline are eventual values, so other navigations may be scheduled, start and
  finish between the scheduling of a navigation, the start of its \<^verbatim>\<open>runNavigate\<close>
  and the delivery of its pipeline. A navigation is \<open>Scheduled\<close> until its
  \<^verbatim>\<open>runNavigate\<close> starts, \<open>Running\<close> with the captured \<^verbatim>\<open>storedState\<close> and
  \<^verbatim>\<open>storedUrl\<close> until its pipeline delivers, and \<open>Settled\<close> with the outcome of its
  promise from then on.
\<close>

datatype 'u Phase = Scheduled | Running RouterState 'u | Settled Settlement

record 'u Navigation =
  ident_n :: nat
  url_n :: 'u
  preventPushState_n :: bool
  phase_n :: "'u Phase"

record 'u World =
  router_w :: "'u Router"
  navigations_w :: "'u Navigation list"

datatype 'u Action =
    Navigate 'u bool
  | Enter nat
  | Deliver nat "'u Collaborators"

definition setPhase :: "nat \<Rightarrow> 'u Phase \<Rightarrow> 'u Navigation list \<Rightarrow> 'u Navigation list" where
  "setPhase ident ph navs = map (\<lambda>n. if ident_n n = ident then n\<lparr>phase_n := ph\<rparr> else n) navs"

definition findNavigation :: "nat \<Rightarrow> 'u Navigation list \<Rightarrow> 'u Navigation option" where
  "findNavigation ident navs = find (\<lambda>n. ident_n n = ident) navs"

text \<open>
  One turn. \<open>Navigate\<close> is a call of \<^verbatim>\<open>scheduleNavigation\<close>; \<open>Enter\<close> is the start
  of the deferred \<^verbatim>\<open>runNavigate\<close> of a scheduled navigation, up to the capture of
  \<^verbatim>\<open>storedState\<close> and \<^verbatim>\<open>storedUrl\<close>; \<open>Deliver\<close> is the rest of
  \<^verbatim>\<open>runNavigate\<close> for a running navigation, with what the collaborators answer. A
  turn for a navigation that is not in the phase it needs does nothing.
\<close>

fun step :: "('u \<Rightarrow> string) \<Rightarrow> 'u Action \<Rightarrow> 'u World \<Rightarrow> 'u World" where
  "step serializeUrl (Navigate url preventPushState) w =
     (case scheduleNavigation serializeUrl url (router_w w) of
        (ident, r) \<Rightarrow>
          \<lparr>router_w = r,
           navigations_w = navigations_w w @
             [\<lparr>ident_n = ident, url_n = url, preventPushState_n = preventPushState,
               phase_n = Scheduled\<rparr>]\<rparr>)"
| "step serializeUrl (Enter ident) w =
     (case findNavigation ident (navigations_w w) of
        None \<Rightarrow> w
      | Some n \<Rightarrow>
          (case phase_n n of
             Scheduled \<Rightarrow>
               (case runNavigate_superseded serializeUrl (url_n n) ident (router_w w) of
                  Some (outcome, r) \<Rightarrow>
                    \<lparr>router_w = r,
                     navigations_w = setPhase ident (Settled outcome) (navigations_w w)\<rparr>
                | None \<Rightarrow>
                    w\<lparr>navigations_w :=
                        setPhase ident
                          (Running (currentRouterState (router_w w)) (currentUrlTree (router_w w)))
                          (navigations_w w)\<rparr>)
           | Running storedState storedUrl \<Rightarrow> w
           | Settled outcome \<Rightarrow> w))"
| "step serializeUrl (Deliver ident c) w =
     (case findNavigation ident (navigations_w w) of
        None \<Rightarrow> w
      | Some n \<Rightarrow>
          (case phase_n n of
             Scheduled \<Rightarrow> w
           | Running storedState storedUrl \<Rightarrow>
               (case runNavigate_body serializeUrl c (url_n n) (preventPushState_n n) ident
                       storedState storedUrl (router_w w) of
                  (outcome, r) \<Rightarrow>
                    \<lparr>router_w = r,
                     navigations_w = setPhase ident (Settled outcome) (navigations_w w)\<rparr>)
           | Settled outcome \<Rightarrow> w))"

fun run :: "('u \<Rightarrow> string) \<Rightarrow> 'u Action list \<Rightarrow> 'u World \<Rightarrow> 'u World" where
  "run serializeUrl [] w = w"
| "run serializeUrl (a # as) w = run serializeUrl as (step serializeUrl a w)"

definition initialWorld :: "'u Router \<Rightarrow> 'u World" where
  "initialWorld r = \<lparr>router_w = r, navigations_w = []\<rparr>"

text \<open>The authoritative pair.\<close>

definition authoritative :: "'u Router \<Rightarrow> RouterState \<times> 'u" where
  "authoritative r = (currentRouterState r, currentUrlTree r)"

subsection \<open>A small application, for concrete runs\<close>

text \<open>
  A root component with one route \<^verbatim>\<open>team/:id\<close> guarded by a can-activate guard.
  URL trees are their serialized strings. The collaborators recognise \<^verbatim>\<open>/team/..\<close>
  as the guarded route and every other URL as the bare root; \<open>allow\<close> is the answer of
  every guard.
\<close>

definition exRoot :: ActivatedRouteSnapshot where
  "exRoot = \<lparr>outlet = ''primary'', component = Some ''AppCmp'', params = [], routeConfig = None\<rparr>"

definition exTeamRoute :: Route where
  "exTeamRoute = \<lparr>route_ref = 1, canActivate = Some [''AuthGuard''], canActivateChild = None,
                   canDeactivate = None\<rparr>"

definition exTeam :: "string \<Rightarrow> ActivatedRouteSnapshot" where
  "exTeam i = \<lparr>outlet = ''primary'', component = Some ''TeamCmp'', params = [(''id'', i)],
                routeConfig = Some exTeamRoute\<rparr>"

definition exRecognize :: "string \<Rightarrow> RouterStateSnapshot" where
  "exRecognize u =
     \<lparr>root_ss = TreeNode exRoot (if take 6 u = ''/team/'' then [TreeNode (exTeam (drop 6 u)) []] else []),
      queryParams_ss = [], fragment_ss = None\<rparr>"

definition exLive :: "nat \<Rightarrow> ActivatedRouteSnapshot \<Rightarrow> ActivatedRoute" where
  "exLive i s = \<lparr>ar_ref = i, outlet_r = outlet s, component_r = component s, snapshot = s,
                  futureSnapshot = s\<rparr>"

definition exCreateRouterState :: "RouterStateSnapshot \<Rightarrow> RouterState \<Rightarrow> RouterState" where
  "exCreateRouterState s prev =
     \<lparr>root_s = TreeNode (exLive 0 (val (root_ss s)))
                 (map (\<lambda>c. TreeNode (exLive 1 (val c)) []) (children (root_ss s))),
      snapshot_s = s, queryParams_s = queryParams_s prev, fragment_s = fragment_s prev\<rparr>"

definition exGuards :: "bool \<Rightarrow> Guards" where
  "exGuards allow =
     \<lparr>canActivateGuard = (\<lambda>c s. Inr (Returns (JBool allow))),
      canActivateChildGuard = (\<lambda>c s. Inr (Returns (JBool allow))),
      canDeactivateGuard = (\<lambda>c cmp s. Inr (Returns (JBool allow))),
      resolver = (\<lambda>s. None)\<rparr>"

definition exCollaborators :: "bool \<Rightarrow> string Collaborators" where
  "exCollaborators allow =
     \<lparr>applyRedirects = Inr, recognize = (\<lambda>u. Inr (exRecognize u)), resolve = Inr,
      createRouterState = exCreateRouterState, guards = exGuards allow,
      mount = (\<lambda>route. Inr (''instance'', []))\<rparr>"

definition exFailing :: "string Collaborators" where
  "exFailing = (exCollaborators True)\<lparr>recognize := (\<lambda>u. Inl (Failure ''no match''))\<rparr>"

definition exRouter :: "string Router" where
  "exRouter =
     \<lparr>currentUrlTree = ''/'',
      currentRouterState = exCreateRouterState (exRecognize ''/'')
        \<lparr>root_s = TreeNode (exLive 0 exRoot) [], snapshot_s = exRecognize ''/'',
         queryParams_s = [], fragment_s = None\<rparr>,
      navigationId = 0, routerEvents = [],
      location = \<lparr>currentPath = ''/'', calls = []\<rparr>,
      outletMap_r = RouterOutletMap [], effects_r = []\<rparr>"

definition exSerialize :: "string \<Rightarrow> string" where
  "exSerialize u = u"

text \<open>
  The navigation counter is the \<^verbatim>\<open>id\<close> of the navigation that was issued last.
\<close>

definition counterIsLatest :: "'u World \<Rightarrow> bool" where
  "counterIsLatest w =
     (navigations_w w = [] \<or> ident_n (last (navigations_w w)) = navigationId (router_w w))"

text \<open>
  Two navigations issued back to back: in \<open>exIssued\<close> neither has started to run; in
  \<open>exRunning\<close> the first started to run before the second was issued; in
  \<open>exOvertaken\<close> the second has also run to its end, while the first still waits for
  its pipeline.
\<close>

definition exIssued :: "string World" where
  "exIssued = run exSerialize [Navigate ''/a'' False, Navigate ''/b'' False] (initialWorld exRouter)"

definition exRunning :: "string World" where
  "exRunning =
     run exSerialize [Navigate ''/a'' False, Enter 1, Navigate ''/b'' False] (initialWorld exRouter)"

definition exOvertaken :: "string World" where
  "exOvertaken =
     run exSerialize
       [Navigate ''/a'' False, Enter 1, Navigate ''/b'' False, Enter 2,
        Deliver 2 (exCollaborators True)]
       (initialWorld exRouter)"

text \<open>The router after \<^verbatim>\<open>navigateByUrl\<close> has scheduled its first navigation.\<close>

definition exScheduled :: "string \<Rightarrow> string Router" where
  "exScheduled url = snd (scheduleNavigation exSerialize url exRouter)"

text \<open>
  Guards that answer by their token: \<^verbatim>\<open>yes\<close> returns \<^verbatim>\<open>true\<close>, \<^verbatim>\<open>later\<close>
  returns a promise of \<^verbatim>\<open>true\<close>, \<^verbatim>\<open>no\<close> returns \<^verbatim>\<open>false\<close>,
  \<^verbatim>\<open>laterNo\<close> returns a promise of \<^verbatim>\<open>false\<close>, and any other guard throws.
  The promises are settled when they are returned. \<open>exGuarded i own child\<close> is a route
  whose entry \<open>i\<close> has the can-activate guards \<open>own\<close> and the can-activate-child
  guards \<open>child\<close>.
\<close>

definition exAnswer :: "token \<Rightarrow> error + jsval Returned" where
  "exAnswer c =
     (if c = ''yes'' then Inr (Returns (JBool True))
      else if c = ''later'' then Inr (ReturnsPromise 0 (Inr (JBool True)))
      else if c = ''no'' then Inr (Returns (JBool False))
      else if c = ''laterNo'' then Inr (ReturnsPromise 0 (Inr (JBool False)))
      else Inl (Failure c))"

definition exTokens :: Guards where
  "exTokens =
     \<lparr>canActivateGuard = (\<lambda>c s. exAnswer c), canActivateChildGuard = (\<lambda>c s. exAnswer c),
      canDeactivateGuard = (\<lambda>c cmp s. exAnswer c), resolver = (\<lambda>s. None)\<rparr>"


definition exGuarded :: "nat \<Rightarrow> token list \<Rightarrow> token list \<Rightarrow> ActivatedRouteSnapshot" where
  "exGuarded i own child =
     \<lparr>outlet = ''primary'', component = Some ''Cmp'', params = [],
      routeConfig = Some \<lparr>route_ref = i, canActivate = Some own, canActivateChild = Some child,
                          canDeactivate = None\<rparr>\<rparr>"

text \<open>
  Slots for concrete runs of the two diffs. \<open>exMounted name nested\<close> is an activated
  slot with the component instance of \<open>name\<close> and the nested registry \<open>nested\<close>;
  \<open>exRegistry\<close> has a team with a user inside it in the primary slot and a chat in the
  slot \<^verbatim>\<open>aux\<close>; \<open>exPrimaryOnly\<close> has no slot \<^verbatim>\<open>aux\<close>. \<open>exGroup r i\<close> is a
  componentless route in the slot \<^verbatim>\<open>aux\<close> with the entry \<open>r\<close> and the parameter
  \<open>i\<close>, and \<open>exLiveGroup\<close> its live route.
\<close>

definition exMounted :: "string \<Rightarrow> RouterOutletMap \<Rightarrow> RouterOutlet" where
  "exMounted name nested =
     RouterOutlet True (name @ ''#1'')
       (exLive 9 \<lparr>outlet = ''primary'', component = Some name, params = [], routeConfig = None\<rparr>)
       (Some nested)"

definition exRegistry :: RouterOutletMap where
  "exRegistry =
     RouterOutletMap
       [(''primary'', exMounted ''Team''
                        (RouterOutletMap [(''primary'', exMounted ''User'' (RouterOutletMap []))])),
        (''aux'', exMounted ''Chat'' (RouterOutletMap []))]"

definition exPrimaryOnly :: RouterOutletMap where
  "exPrimaryOnly = RouterOutletMap [(''primary'', exMounted ''Team'' (RouterOutletMap []))]"

definition exGroup :: "nat \<Rightarrow> string \<Rightarrow> ActivatedRouteSnapshot" where
  "exGroup r i =
     \<lparr>outlet = ''aux'', component = None, params = [(''id'', i)],
      routeConfig = Some \<lparr>route_ref = r, canActivate = None, canActivateChild = None,
                          canDeactivate = None\<rparr>\<rparr>"







text \<open>A route whose can-deactivate guard answers \<^verbatim>\<open>false\<close>.\<close>

definition exLeaving :: ActivatedRouteSnapshot where
  "exLeaving =
     \<lparr>outlet = ''aux'', component = Some ''ChatCmp'', params = [],
      routeConfig = Some \<lparr>route_ref = 4, canActivate = None, canActivateChild = None,
                          canDeactivate = Some [''no'']\<rparr>\<rparr>"

section \<open>Properties of the guard-phase diff\<close>

lemma bindE_Inl [simp]: "bindE (Inl e) f = Inl e"
  by (simp add: bindE_def)

lemma bindE_Inr [simp]: "bindE (Inr x) f = f x"
  by (simp add: bindE_def)

lemma outletOf_None_iff:
  "outletOf parentOutletMap future = None \<longleftrightarrow>
     (parentOutletMap = None \<or>
      (\<exists>m. parentOutletMap = Some m \<and> dict_get (outlets m) (outlet future) = None))"
  by (cases parentOutletMap) (simp_all add: outletOf_def)

subsection \<open>The diff only adds checks, below the path it is at\<close>

lemma adds_refl [simp]: "adds P checks (Inr checks)"
  by (simp add: adds_def)

lemma adds_Inl [simp]: "adds P checks (Inl e)"
  by (simp add: adds_def)

lemma adds_append [simp]: "adds P checks (Inr (checks @ new)) \<longleftrightarrow> list_all P new"
  by (simp add: adds_def)

lemma adds_bindE:
  assumes "adds P checks r" and "\<And>checks'. adds P checks' (f checks')"
  shows "adds P checks (bindE r f)"
proof (cases r)
  case (Inl e)
  then show ?thesis by simp
next
  case (Inr cs)
  with assms(1) obtain new where cs: "cs = checks @ new" and "list_all P new"
    by (auto simp: adds_def) (metis append_take_drop_id)
  from assms(2) [of cs] show ?thesis
  proof (cases "f cs")
    case (Inl e)
    with Inr show ?thesis by simp
  next
    case (Inr cs')
    with \<open>adds P cs (f cs)\<close> obtain new' where "cs' = cs @ new'" "list_all P new'"
      by (auto simp: adds_def) (metis append_take_drop_id)
    with cs \<open>list_all P new\<close> Inr \<open>r = Inr cs\<close> show ?thesis by simp
  qed
qed

lemma adds_mono: "adds P checks r \<Longrightarrow> (\<And>c. P c \<Longrightarrow> Q c) \<Longrightarrow> adds Q checks r"
  by (auto simp: adds_def list_all_iff split: sum.splits)

lemma deactivate_adds:
  "adds isDeactivate checks (deactivateOutletAndItChildren route ol checks)"
  "adds isDeactivate checks (deactivateOutletMap om checks)"
  "adds isDeactivate checks (deactivateOutlets os checks)"
proof (induction route ol checks and om checks and os checks
    rule: deactivateOutletAndItChildren_deactivateOutletMap_deactivateOutlets.induct)
  case (2 route act cmp ar om checks)
  then show ?case
    by (auto intro!: adds_bindE simp: isDeactivate_def)
next
  case (6 k v rest checks)
  then show ?case
    by (auto intro!: adds_bindE)
qed simp_all

lemma deactivateRemaining_adds:
  "adds isDeactivate checks (deactivateRemaining prev om checks)"
proof (induction prev om checks rule: deactivateRemaining.induct)
  case (3 k v rest m checks)
  then show ?case
    by (auto intro!: adds_bindE deactivate_adds)
qed simp_all

lemma isDeactivate_belowPath: "isDeactivate c \<Longrightarrow> belowPath p c"
  by (cases c) (simp_all add: isDeactivate_def belowPath_def)

lemma recordChecks_adds:
  "adds (\<lambda>c. isDeactivate c \<or> c = CanActivate futurePath) checks
     (recordChecks future currNode parentOutletMap futurePath checks)"
proof (cases currNode)
  case None
  then show ?thesis by (simp add: recordChecks_def)
next
  case (Some n)
  show ?thesis
  proof (cases "same_routeConfig future (val n)")
    case True
    with Some show ?thesis
      by (cases "outletOf parentOutletMap future")
         (simp_all add: recordChecks_def isDeactivate_def)
  next
    case False
    let ?P = "\<lambda>c. isDeactivate c \<or> c = CanActivate futurePath"
    have d: "adds ?P checks
               (if component (val n) \<noteq> None
                then deactivateOutletAndItChildren (Snapshot (val n))
                       (outletOf parentOutletMap future) checks
                else deactivateOutletMap parentOutletMap checks)"
      by (rule adds_mono [where P = isDeactivate]) (simp_all add: deactivate_adds)
    have "adds ?P checks
            (bindE (if component (val n) \<noteq> None
                    then deactivateOutletAndItChildren (Snapshot (val n))
                           (outletOf parentOutletMap future) checks
                    else deactivateOutletMap parentOutletMap checks)
               (\<lambda>checks'. Inr (checks' @ [CanActivate futurePath])))"
      by (rule adds_bindE [OF d]) simp
    with Some False show ?thesis by (simp add: recordChecks_def)
  qed
qed

lemma belowPath_snoc:
  "belowPath (p @ [x]) c \<or> c = CanActivate (p @ [x]) \<Longrightarrow> belowPath p c"
  by (cases c) (auto simp: belowPath_def take_Suc_conv_app_nth dest: arg_cong [where f = "take (length p)"])

lemma traverse_adds:
  "adds (belowPath futurePath) checks (traverseChildRoutes futureNode currNode om futurePath checks)"
  "adds (belowPath futurePath) checks
     (map_sum id snd (traverseChildren cs prevChildren om futurePath checks))"
  "adds (\<lambda>c. belowPath futurePath c \<or> c = CanActivate futurePath) checks
     (traverseRoutes futureNode currNode om futurePath checks)"
proof (induction futureNode currNode om futurePath checks
      and cs prevChildren om futurePath checks
      and futureNode currNode om futurePath checks
    rule: traverseChildRoutes_traverseChildren_traverseRoutes.induct)
  case (1 fv fcs currNode om futurePath checks)
  show ?case
  proof (cases "traverseChildren fcs (nodeChildrenAsMap currNode outlet) om futurePath checks")
    case (Inl e)
    then show ?thesis by simp
  next
    case (Inr t)
    obtain prev cs' where t: "t = (prev, cs')" by (cases t)
    from 1 Inr t have a: "adds (belowPath futurePath) checks (Inr cs')" by simp
    have b: "adds (belowPath futurePath) cs' (deactivateRemaining prev om cs')"
      by (rule adds_mono [OF deactivateRemaining_adds]) (rule isDeactivate_belowPath)
    from adds_bindE [OF a, of "\<lambda>c. deactivateRemaining prev om c"]
    have "adds (belowPath futurePath) checks (deactivateRemaining prev om cs')"
      by (simp add: adds_mono [OF deactivateRemaining_adds isDeactivate_belowPath])
    with Inr t show ?thesis by simp
  qed
next
  case (2 prevChildren om futurePath checks)
  then show ?case by simp
next
  case (3 c cs prevChildren om futurePath checks)
  show ?case
  proof (cases "traverseRoutes c (dict_get prevChildren (outlet (val c))) om (futurePath @ [val c]) checks")
    case (Inl e)
    then show ?thesis by simp
  next
    case (Inr cs')
    from 3(1) Inr have "adds (\<lambda>x. belowPath (futurePath @ [val c]) x \<or> x = CanActivate (futurePath @ [val c])) checks (Inr cs')"
      by simp
    then have a: "adds (belowPath futurePath) checks (Inr cs')"
      by (rule adds_mono) (rule belowPath_snoc)
    have b: "adds (belowPath futurePath) x
               (map_sum id snd (traverseChildren cs (dict_delete (outlet (val c)) prevChildren) om futurePath x))" for x
      by (rule 3(2))
    from a obtain new where n: "cs' = checks @ new" "list_all (belowPath futurePath) new"
      by (auto simp: adds_def) (metis append_take_drop_id)
    show ?thesis
    proof (cases "traverseChildren cs (dict_delete (outlet (val c)) prevChildren) om futurePath cs'")
      case (Inl e)
      with Inr show ?thesis by simp
    next
      case (Inr t)
      with b [of cs'] obtain new' where "snd t = cs' @ new'" "list_all (belowPath futurePath) new'"
        by (auto simp: adds_def) (metis append_take_drop_id)
      with n Inr \<open>traverseRoutes c (dict_get prevChildren (outlet (val c))) om (futurePath @ [val c]) checks = Inr cs'\<close>
      show ?thesis by simp
    qed
  qed
next
  case (4 future fcs currNode parentOutletMap futurePath checks)
  have a: "adds (\<lambda>c. belowPath futurePath c \<or> c = CanActivate futurePath) checks
             (recordChecks future currNode parentOutletMap futurePath checks)"
    by (rule adds_mono [OF recordChecks_adds]) (auto dest: isDeactivate_belowPath)
  have b: "adds (\<lambda>c. belowPath futurePath c \<or> c = CanActivate futurePath) x
             (traverseChildRoutes (TreeNode future fcs)
                (if reusingNode future currNode then currNode else None)
                (childOutletMap future parentOutletMap) futurePath x)" for x
    by (rule adds_mono [OF 4]) simp
  show ?case
    unfolding traverseRoutes.simps
    by (rule adds_bindE [OF a]) (rule b)
qed

lemma recorded_of_belowPath: "belowPath p c \<Longrightarrow> recorded c"
  by (cases c) (auto simp: belowPath_def)

lemma traverse_records_recorded:
  assumes "traverse futureRoot currRoot om = Inr checks"
  shows "list_all recorded checks"
proof -
  from traverse_adds(1) [of "[val futureRoot]" "[]" futureRoot currRoot om] assms
  have "list_all (belowPath [val futureRoot]) checks"
    by (simp add: traverse_def adds_def)
  then show ?thesis
    by (auto simp: list_all_iff dest: recorded_of_belowPath)
qed

subsection \<open>Deactivation is a teardown in post-order\<close>













subsection \<open>A reused node\<close>




text \<open>
  When the parent outlet map has an outlet for the slot, a reused node with new
  parameters records the deactivate-check of the previous snapshot and then the
  activate-check of the new path.
\<close>

lemma reused_node_with_new_params_records:
  assumes "currNode = Some n" "same_routeConfig future (val n)"
    and "\<not> shallowEqual (params future) (params (val n))"
    and "outletOf parentOutletMap future = Some ol"
  shows "recordChecks future currNode parentOutletMap futurePath checks =
           Inr (checks @ [CanDeactivate (component_o ol) (Snapshot (val n)), CanActivate futurePath])"
  using assms by (simp add: recordChecks_def)


text \<open>
  C6. A reused node (same route-config) whose parameters differ, in a slot for which
  the parent outlet map has no outlet: \<^verbatim>\<open>traverse\<close> throws and records no check. With
  an outlet for the slot it records the deactivate-check of the previous snapshot
  followed by the activate-check of the new path.
\<close>

theorem reused_node_with_new_params_throws_without_outlet:
  "traverse (TreeNode exRoot [TreeNode (exGroup 5 ''33'') []])
     (Some (TreeNode exRoot [TreeNode (exGroup 5 ''22'') []])) (Some exPrimaryOnly)
   = Inl (TypeError ''component'') \<and>
   traverse (TreeNode exRoot [TreeNode (exGroup 5 ''33'') []])
     (Some (TreeNode exRoot [TreeNode (exGroup 5 ''22'') []])) (Some exRegistry)
   = Inr [CanDeactivate ''Chat#1'' (Snapshot (exGroup 5 ''22'')),
          CanActivate [exRoot, exGroup 5 ''33'']]"
  by code_simp


text \<open>
  C10. In the reusing branch of \<^verbatim>\<open>traverseRoutes\<close> (the previous node at the slot has
  the same route-config) with parameters that differ, \<^verbatim>\<open>outlet.component\<close> is read
  with no test of \<^verbatim>\<open>outlet\<close>: whenever the parent outlet map is \<^verbatim>\<open>null\<close> or
  has no entry for the slot, \<^verbatim>\<open>traverseRoutes\<close> throws a \<^verbatim>\<open>TypeError\<close> and
  records no check, whatever the children and the checks recorded so far.
\<close>

theorem traverseRoutes_reused_without_outlet_throws:
  assumes "currNode = Some n"
    and "same_routeConfig future (val n)"
    and "\<not> shallowEqual (params future) (params (val n))"
    and "parentOutletMap = None \<or>
         (\<exists>m. parentOutletMap = Some m \<and> dict_get (outlets m) (outlet future) = None)"
  shows "traverseRoutes (TreeNode future fcs) currNode parentOutletMap futurePath checks
           = Inl (TypeError ''component'')"
proof -
  from assms(4) have "outletOf parentOutletMap future = None"
    by (simp add: outletOf_None_iff)
  with assms(1-3) have
    "recordChecks future currNode parentOutletMap futurePath checks = Inl (TypeError ''component'')"
    by (simp add: recordChecks_def)
  then show ?thesis by simp
qed

theorem traverseRoutes_reused_without_outlet_throws_witness:
  "traverseRoutes
     (TreeNode \<lparr>outlet = ''primary'', component = None, params = [(''id'', ''33'')],
                 routeConfig = Some \<lparr>route_ref = 1, canActivate = None,
                   canActivateChild = None, canDeactivate = None\<rparr>\<rparr> [])
     (Some (TreeNode \<lparr>outlet = ''primary'', component = None, params = [(''id'', ''22'')],
                 routeConfig = Some \<lparr>route_ref = 1, canActivate = None,
                   canActivateChild = None, canDeactivate = None\<rparr>\<rparr> []))
     (Some (RouterOutletMap [])) [] []
   = Inl (TypeError ''component'')"
  by (rule traverseRoutes_reused_without_outlet_throws [where n =
        "TreeNode \<lparr>outlet = ''primary'', component = None, params = [(''id'', ''22'')],
                 routeConfig = Some \<lparr>route_ref = 1, canActivate = None,
                   canActivateChild = None, canDeactivate = None\<rparr>\<rparr> []"])
     (simp_all add: same_routeConfig_def shallowEqual_def dict_get_def)

section \<open>Properties of the guards\<close>

subsection \<open>Merging and testing observables\<close>

lemma Observable_cases3 [case_names Fails Ends Waits]:
  obtains (Fails) xs e where "ob = Done xs (Some e)"
  | (Ends) xs where "ob = Done xs None"
  | (Waits) xs r where "ob = Wait xs r"
proof (cases ob)
  case (Done xs t)
  then show ?thesis using that(1,2) by (cases t) auto
next
  case (Wait xs r)
  then show ?thesis using that(3) by auto
qed

lemma merge_unit_right [simp]: "merge a (Done [] None) = a"
  by (cases a rule: Observable_cases3) simp_all

lemma merge_unit_left [simp]: "merge (Done [] None) b = b"
  by (cases b) simp_all

lemma merge_assoc: "merge (merge a b) c = merge a (merge b c)"
proof (induction a arbitrary: b c)
  case (Done xs t)
  show ?case
    by (cases t; cases b rule: Observable_cases3; cases c rule: Observable_cases3) simp_all
next
  case (Wait xs ra)
  then show ?case
    by (cases b rule: Observable_cases3; cases c rule: Observable_cases3) simp_all
qed

lemma foldr_merge: "foldr merge obs z = merge (foldr merge obs (Done [] None)) z"
  by (induction obs) (simp_all add: merge_assoc)

lemma isTrue_JBool [simp]: "isTrue (JBool b) = b"
  by (simp add: isTrue_def)

lemma every_idem [simp]: "every isTrue (every isTrue ob) = every isTrue ob"
  by (induction ob) (auto split: option.splits)

lemma every_merge_left: "every isTrue (merge (every isTrue a) b) = every isTrue (merge a b)"
proof (induction a b rule: merge.induct)
  case (1 xs e b)
  show ?case by (cases b) auto
qed (auto split: option.splits)

lemma every_merge_right: "every isTrue (merge a (every isTrue b)) = every isTrue (merge a b)"
  by (induction a b rule: merge.induct) (auto split: option.splits)

lemma map_obs_Done:
  "map_obs f (Done xs None) = Done (fst (mapValues f xs)) (snd (mapValues f xs))"
  by (cases "mapValues f xs") (auto split: option.splits)

lemma mergeAll_map_obs:
  "mergeAll (map_obs f (Done xs None)) =
     foldr merge (map (\<lambda>x. case f x of Inl e \<Rightarrow> Done [] (Some e) | Inr ob \<Rightarrow> ob) xs) (Done [] None)"
proof -
  have "foldr merge (fst (mapValues f xs)) (Done [] (snd (mapValues f xs))) =
          foldr merge (map (\<lambda>x. case f x of Inl e \<Rightarrow> Done [] (Some e) | Inr ob \<Rightarrow> ob) xs)
            (Done [] None)"
    by (induction xs) (auto split: sum.splits prod.splits)
  then show ?thesis by (simp only: map_obs_Done mergeAll.simps)
qed

subsection \<open>The observable chain of a check calls its guards in order\<close>

lemma deniesNow_merge_left: "deniesNow a \<Longrightarrow> deniesNow (merge a b)"
  by (induction a b rule: merge.induct) (auto simp: deniesNow_def)

lemma deniesNow_merge_right: "passesNow a \<Longrightarrow> deniesNow b \<Longrightarrow> deniesNow (merge a b)"
  by (induction a b rule: merge.induct) (auto simp: deniesNow_def)

lemma failsNow_merge_left: "failsNow a e \<Longrightarrow> merge a b = a"
  by (cases a rule: Observable_cases3) simp_all

lemma failsNow_merge_right: "passesNow a \<Longrightarrow> failsNow b e \<Longrightarrow> failsNow (merge a b) e"
  by (induction a b rule: merge.induct) auto

lemma every_deniesNow: "deniesNow ob \<Longrightarrow> every isTrue ob = Done [JBool False] None"
  by (cases ob) (simp_all add: deniesNow_def)

lemma every_failsNow: "failsNow ob e \<Longrightarrow> every isTrue ob = Done [] (Some e)"
  by (cases ob) simp_all

text \<open>One turn of the merged answers.\<close>

lemma turn_foldr_merge:
  "(case turn obs of
      Denied \<Rightarrow> deniesNow (foldr merge obs (Done [] None))
    | Failed e \<Rightarrow> failsNow (foldr merge obs (Done [] None)) e
    | Pending rest \<Rightarrow>
        list_all isTrue (now (foldr merge obs (Done [] None))) \<and>
        (if rest = [] then \<exists>xs. foldr merge obs (Done [] None) = Done xs None
         else \<exists>xs. foldr merge obs (Done [] None) = Wait xs (foldr merge rest (Done [] None))))"
proof (induction obs)
  case Nil
  then show ?case by simp
next
  case (Cons ob obs)
  let ?X = "foldr merge obs (Done [] None)"
  show ?case
  proof (cases "list_all isTrue (now ob)")
    case False
    then have "deniesNow (merge ob ?X)"
      by (intro deniesNow_merge_left) (simp add: deniesNow_def)
    with False show ?thesis by simp
  next
    case True
    show ?thesis
    proof (cases ob rule: Observable_cases3)
      case (Fails xs e)
      with True show ?thesis by simp
    next
      case (Ends xs)
      with True have p: "passesNow ob" by simp
      show ?thesis
      proof (cases "turn obs")
        case Denied
        with Cons have "deniesNow ?X" by simp
        from deniesNow_merge_right [OF p this] Denied Ends True show ?thesis by simp
      next
        case (Failed e)
        with Cons have "failsNow ?X e" by simp
        from failsNow_merge_right [OF p this] Failed Ends True show ?thesis by simp
      next
        case (Pending rest)
        with Cons Ends True show ?thesis
          by (cases "rest = []") auto
      qed
    next
      case (Waits xs later)
      with True have p: "passesNow ob" by simp
      show ?thesis
      proof (cases "turn obs")
        case Denied
        with Cons have "deniesNow ?X" by simp
        from deniesNow_merge_right [OF p this] Denied Waits True show ?thesis by simp
      next
        case (Failed e)
        with Cons have "failsNow ?X e" by simp
        from failsNow_merge_right [OF p this] Failed Waits True show ?thesis by simp
      next
        case (Pending rest)
        with Cons Waits True show ?thesis
          by (cases "rest = []") auto
      qed
    qed
  qed
qed

lemma every_foldr_merge: "every isTrue (foldr merge obs (Done [] None)) = conjunction obs"
proof (induction obs rule: conjunction.induct)
  case (1 obs)
  let ?X = "foldr merge obs (Done [] None)"
  show ?case
  proof (cases "turn obs")
    case Denied
    with turn_foldr_merge [of obs] have "deniesNow ?X" by simp
    with Denied show ?thesis
      by (simp add: every_deniesNow conjunction.simps [of obs])
  next
    case (Failed e)
    with turn_foldr_merge [of obs] have "failsNow ?X e" by simp
    with Failed show ?thesis
      by (simp add: every_failsNow conjunction.simps [of obs])
  next
    case (Pending rest)
    show ?thesis
    proof (cases "rest = []")
      case True
      with Pending turn_foldr_merge [of obs] obtain xs where
        "?X = Done xs None" "list_all isTrue xs"
        by auto
      with Pending True show ?thesis
        by (simp add: conjunction.simps [of obs])
    next
      case False
      with Pending turn_foldr_merge [of obs] obtain xs where
        "?X = Wait xs (foldr merge rest (Done [] None))" "list_all isTrue xs"
        by auto
      with Pending False 1 [OF Pending False] show ?thesis
        by (simp add: conjunction.simps [of obs])
    qed
  qed
qed

lemma every_mergeAll_map_obs:
  "every isTrue (mergeAll (map_obs f (Done xs None))) =
     conjunction (map (\<lambda>x. case f x of Inl e \<Rightarrow> Done [] (Some e) | Inr ob \<Rightarrow> ob) xs)"
  by (simp only: mergeAll_map_obs every_foldr_merge)

lemma conjunction_Nil [simp]: "conjunction [] = Done [JBool True] None"
  by (simp add: conjunction.simps [of "[]"])

lemma conjunction_flatten:
  "conjunction (conjunction obs1 # obs2) = conjunction (obs1 @ obs2)"
  unfolding every_foldr_merge [symmetric]
  using foldr_merge [of obs1 "foldr merge obs2 (Done [] None)"]
  by (simp add: every_merge_left)

lemma conjunction_append_cong:
  assumes "conjunction a = conjunction b"
  shows "conjunction (xs @ a) = conjunction (xs @ b)"
proof -
  have split: "conjunction (xs @ c)
                 = every isTrue (merge (foldr merge xs (Done [] None)) (conjunction c))" for c
    unfolding every_foldr_merge [symmetric]
    using foldr_merge [of xs "foldr merge c (Done [] None)"]
    by (simp add: every_merge_right)
  show ?thesis by (simp only: split assms)
qed

lemma conjunction_concat:
  "conjunction (map conjunction obss) = conjunction (concat obss)"
proof (induction obss)
  case Nil
  then show ?case by simp
next
  case (Cons obs obss)
  have "conjunction (map conjunction (obs # obss)) = conjunction (conjunction obs # map conjunction obss)"
    by simp
  also have "\<dots> = conjunction (obs @ map conjunction obss)"
    by (rule conjunction_flatten)
  also have "\<dots> = conjunction (obs @ concat obss)"
    using Cons by (rule conjunction_append_cong)
  finally show ?case by simp
qed

lemma andObservables_from: "andObservables (Observable_from obs) = conjunction obs"
  by (simp add: andObservables_def Observable_from_def every_foldr_merge)

lemma andObservables_map_obs:
  "andObservables (map_obs f (Observable_from xs)) =
     conjunction (map (\<lambda>x. case f x of Inl e \<Rightarrow> Done [] (Some e) | Inr ob \<Rightarrow> ob) xs)"
  by (simp only: andObservables_def Observable_from_def every_mergeAll_map_obs)

lemma wrapIntoObservable_eventually: "wrapIntoObservable v = eventually v"
proof (cases v)
  case (ReturnsPromise n p)
  then show ?thesis by (cases p) (simp_all add: Observable_fromPromise_def)
qed (simp_all add: Observable_of_def)

lemma wrapped_answer:
  "(case wrapped r of Inl e \<Rightarrow> Done [] (Some e) | Inr ob \<Rightarrow> ob) =
   (case r of Inl e \<Rightarrow> Done [] (Some e) | Inr v \<Rightarrow> eventually v)"
  by (cases r) (simp_all add: wrapped_def wrapIntoObservable_eventually)

lemma runCanActivate_conjunction:
  "runCanActivate g future =
     conjunction (map (\<lambda>c. answer g (CallCanActivate c future)) (predicates canActivate future))"
  by (auto simp: runCanActivate_def predicates_def Observable_of_def andObservables_map_obs
        wrapped_answer split: option.splits)

lemma runCanDeactivate_conjunction:
  "runCanDeactivate g cmp (Snapshot s) =
     conjunction (map (answer g) (guardCalls (CanDeactivate cmp (Snapshot s))))"
  by (auto simp: runCanDeactivate_def predicates_def Observable_of_def Observable_from_def
        every_mergeAll_map_obs wrapped_answer comp_def simp del: map_obs.simps
        split: option.splits)

lemma extractCanActivateChild_predicates:
  "extractCanActivateChild a = None \<longleftrightarrow> predicates canActivateChild a = []"
  "extractCanActivateChild a = Some d \<Longrightarrow> snd d = predicates canActivateChild a"
  by (auto simp: extractCanActivateChild_def predicates_def split: option.splits if_splits)

lemma child_guards_conjunction:
  "conjunction
     (map (\<lambda>d. conjunction (map h (snd (the d))))
        (filter (\<lambda>d. d \<noteq> None) (map extractCanActivateChild as))) =
   conjunction (concat (map (\<lambda>a. map h (predicates canActivateChild a)) as))"
proof (induction as)
  case Nil
  then show ?case by simp
next
  case (Cons a as)
  show ?case
  proof (cases "extractCanActivateChild a")
    case None
    with Cons extractCanActivateChild_predicates(1) [of a] show ?thesis by simp
  next
    case (Some d)
    have "conjunction (conjunction (map h (snd d)) #
            map (\<lambda>d. conjunction (map h (snd (the d))))
              (filter (\<lambda>d. d \<noteq> None) (map extractCanActivateChild as)))
          = conjunction (map h (snd d) @
              map (\<lambda>d. conjunction (map h (snd (the d))))
                (filter (\<lambda>d. d \<noteq> None) (map extractCanActivateChild as)))"
      by (rule conjunction_flatten)
    also have "\<dots> = conjunction (map h (snd d) @
                 concat (map (\<lambda>a. map h (predicates canActivateChild a)) as))"
      using Cons by (rule conjunction_append_cong)
    finally show ?thesis
      using Some extractCanActivateChild_predicates(2) [OF Some] by simp
  qed
qed

lemma runCanActivateChild_conjunction:
  "runCanActivateChild g p =
     conjunction
       (concat (map (\<lambda>a. map (\<lambda>c. answer g (CallCanActivateChild c (last p)))
                            (predicates canActivateChild a))
                  (ancestors p)))"
proof -
  have "runCanActivateChild g p =
          conjunction
            (map (\<lambda>d. conjunction (map (\<lambda>c. answer g (CallCanActivateChild c (last p))) (snd (the d))))
               (filter (\<lambda>d. d \<noteq> None) (map extractCanActivateChild (rev (butlast p)))))"
    by (simp add: runCanActivateChild_def Let_def andObservables_map_obs wrapped_answer)
  then show ?thesis
    by (simp only: child_guards_conjunction ancestors_def)
qed

lemma runCheck_conjunction:
  assumes "recorded check" and "carriesSnapshot check"
  shows "runCheck g check = Inr (conjunction (map (answer g) (guardCalls check)))"
proof (cases check)
  case (CanActivate p)
  with assms have ne: "p \<noteq> []" by simp
  have "andObservables (Observable_from [runCanActivate g (last p), runCanActivateChild g p])
          = conjunction [runCanActivate g (last p), runCanActivateChild g p]"
    by (rule andObservables_from)
  also have "\<dots> = conjunction (map (answer g) (guardCalls (CanActivate p)))"
    using conjunction_concat
      [of "[map (\<lambda>c. answer g (CallCanActivate c (last p))) (predicates canActivate (last p)),
            concat (map (\<lambda>a. map (\<lambda>c. answer g (CallCanActivateChild c (last p)))
                                 (predicates canActivateChild a)) (ancestors p))]"]
    by (simp add: runCanActivate_conjunction runCanActivateChild_conjunction comp_def
          map_concat)
  finally show ?thesis using CanActivate ne by simp
next
  case (CanDeactivate cmp r)
  with assms obtain s where "r = Snapshot s" by (cases r) simp_all
  with CanDeactivate show ?thesis by (simp only: runCheck.simps runCanDeactivate_conjunction)
qed

lemma checkGuards_conjunction:
  assumes "list_all recorded checks" and "list_all carriesSnapshot checks"
  shows "checkGuards g checks = conjunction (map (answer g) (concat (map guardCalls checks)))"
proof -
  have "every isTrue (mergeAll (map_obs (runCheck g) (Observable_from checks)))
          = conjunction (map (\<lambda>x. case runCheck g x of Inl e \<Rightarrow> Done [] (Some e) | Inr ob \<Rightarrow> ob) checks)"
    by (simp only: Observable_from_def every_mergeAll_map_obs)
  also have "map (\<lambda>x. case runCheck g x of Inl e \<Rightarrow> Done [] (Some e) | Inr ob \<Rightarrow> ob) checks
          = map (\<lambda>x. conjunction (map (answer g) (guardCalls x))) checks"
    using assms by (induction checks) (simp_all add: runCheck_conjunction)
  also have "conjunction (map (\<lambda>x. conjunction (map (answer g) (guardCalls x))) checks)
          = conjunction (map (answer g) (concat (map guardCalls checks)))"
    using conjunction_concat [of "map (\<lambda>x. map (answer g) (guardCalls x)) checks"]
    by (simp add: comp_def map_concat)
  finally show ?thesis
    by (cases checks) (simp_all add: checkGuards_def Observable_of_def)
qed

text \<open>What the guards called in order give.\<close>

lemma evaluatesToTrue_merge:
  "evaluatesToTrue (merge a b) \<longleftrightarrow> evaluatesToTrue a \<and> evaluatesToTrue b"
  by (induction a b rule: merge.induct) (auto simp: evaluatesToTrue_def)

lemma evaluatesToTrue_foldr_merge:
  "evaluatesToTrue (foldr merge obs (Done [] None)) \<longleftrightarrow> list_all evaluatesToTrue obs"
  by (induction obs) (simp_all add: evaluatesToTrue_merge, simp add: evaluatesToTrue_def)

lemma delivered_every_True:
  "delivered (every isTrue ob) = ([JBool True], None) \<longleftrightarrow> evaluatesToTrue ob"
  by (induction ob) (auto simp: delivered_def evaluatesToTrue_def split: option.splits)

lemma conjunction_True_iff:
  "delivered (conjunction obs) = ([JBool True], None) \<longleftrightarrow> list_all evaluatesToTrue obs"
  by (simp add: every_foldr_merge [symmetric] delivered_every_True evaluatesToTrue_foldr_merge)

lemma ending_merge:
  "ending a = None \<Longrightarrow> ending b = None \<Longrightarrow> ending (merge a b) = None"
  by (induction a b rule: merge.induct) simp_all

lemma ending_foldr_merge:
  "list_all (\<lambda>ob. ending ob = None) obs \<Longrightarrow> ending (foldr merge obs (Done [] None)) = None"
  by (induction obs) (simp_all add: ending_merge)

lemma delivered_every_no_failure:
  "ending ob = None \<Longrightarrow> delivered (every isTrue ob) = ([JBool (evaluatesToTrue ob)], None)"
  by (induction ob) (auto simp: delivered_def evaluatesToTrue_def)

lemma conjunction_no_failure:
  "list_all (\<lambda>ob. ending ob = None) obs \<Longrightarrow>
   delivered (conjunction obs) = ([JBool (list_all evaluatesToTrue obs)], None)"
  by (simp add: every_foldr_merge [symmetric] delivered_every_no_failure ending_foldr_merge
        evaluatesToTrue_foldr_merge)

lemma conjunction_denied_now:
  assumes "list_all passesNow pre" and "deniesNow ob"
  shows "conjunction (pre @ ob # rest) = Done [JBool False] None"
proof -
  have "deniesNow (foldr merge (pre @ ob # rest) (Done [] None))"
    using assms(1) by (induction pre) (simp_all add: deniesNow_merge_left deniesNow_merge_right assms(2))
  then show ?thesis by (simp only: every_foldr_merge [symmetric] every_deniesNow)
qed

lemma conjunction_fails_now:
  assumes "list_all passesNow pre" and "failsNow ob e"
  shows "conjunction (pre @ ob # rest) = Done [] (Some e)"
proof -
  have "failsNow (foldr merge (pre @ ob # rest) (Done [] None)) e"
    using assms(1)
    by (induction pre) (simp_all add: failsNow_merge_left [OF assms(2)] assms(2) failsNow_merge_right)
  then show ?thesis by (simp only: every_foldr_merge [symmetric] every_failsNow)
qed

text \<open>
  A deactivate-check that carries a tree node: \<^verbatim>\<open>runCanDeactivate\<close> finds no
  \<^verbatim>\<open>_routeConfig\<close> on the node and runs no guard, whatever the can-deactivate
  guards of the outgoing route are.
\<close>

lemma tree_node_check_runs_no_guard:
  "runCheck g (CanDeactivate cmp (Node n)) = Inr (Done [JBool True] None)"
  by (simp add: runCanDeactivate_def Observable_of_def)

lemma tree_node_check_skips_denying_guard:
  "map (answer exTokens) (guardCalls (CanDeactivate ''Chat#1'' (Node (TreeNode exLeaving []))))
     = [Done [JBool False] None] \<and>
   checkGuards exTokens [CanDeactivate ''Chat#1'' (Node (TreeNode exLeaving []))]
     = Done [JBool True] None \<and>
   checkGuards exTokens [CanDeactivate ''Chat#1'' (Snapshot exLeaving)]
     = Done [JBool False] None"
  by code_simp

subsection \<open>The guards of a check and their combination\<close>

text \<open>
  C8. For an activate-check (with the path that \<^verbatim>\<open>traverse\<close> records, which is not
  empty) the callback of \<^verbatim>\<open>checkGuards\<close> evaluates exactly these guards, called
  one after the other in this order, as one short-circuit conjunction: the can-activate
  guards of the last node of the path, each called with that node; then, for the other
  nodes of the path from the nearest ancestor to the root (\<open>rev (butlast p)\<close>), the
  can-activate-child guards of that ancestor, each called with the last node of the path.
  The can-activate-child guards of the node itself and the can-activate guards of the
  ancestors are not called. The order is the order of the calls: a guard that answers
  with a promise does not hold back the calls of the guards after it.
\<close>

theorem activate_check_guards:
  assumes "p \<noteq> []"
  shows "runCheck g (CanActivate p) =
           Inr (conjunction
                  (map (\<lambda>c. answer g (CallCanActivate c (last p))) (predicates canActivate (last p)) @
                   concat (map (\<lambda>a. map (\<lambda>c. answer g (CallCanActivateChild c (last p)))
                                        (predicates canActivateChild a))
                             (rev (butlast p)))))"
  using assms runCheck_conjunction [of "CanActivate p" g]
  by (simp add: ancestors_def comp_def map_concat)

theorem activate_check_guards_witness:
  "runCheck exTokens
     (CanActivate [exGuarded 1 [''boom''] [''boom''], exGuarded 2 [''boom''] [''no''],
                   exGuarded 3 [''yes''] [''boom'']])
   = Inr (Done [JBool False] None) \<and>
   runCheck exTokens
     (CanActivate [exGuarded 1 [] [''boom''], exGuarded 2 [] [''laterNo''], exGuarded 3 [] []])
   = Inr (Done [] (Some (Failure ''boom'')))"
proof -
  let ?p = "[exGuarded 1 [''boom''] [''boom''], exGuarded 2 [''boom''] [''no''],
             exGuarded 3 [''yes''] [''boom'']]"
  let ?q = "[exGuarded 1 [] [''boom''], exGuarded 2 [] [''laterNo''], exGuarded 3 [] []]"
  have c1: "conjunction
              (map (\<lambda>c. answer exTokens (CallCanActivate c (last ?p))) (predicates canActivate (last ?p)) @
               concat (map (\<lambda>a. map (\<lambda>c. answer exTokens (CallCanActivateChild c (last ?p)))
                                    (predicates canActivateChild a))
                         (rev (butlast ?p))))
            = Done [JBool False] None"
    by code_simp
  have c2: "conjunction
              (map (\<lambda>c. answer exTokens (CallCanActivate c (last ?q))) (predicates canActivate (last ?q)) @
               concat (map (\<lambda>a. map (\<lambda>c. answer exTokens (CallCanActivateChild c (last ?q)))
                                    (predicates canActivateChild a))
                         (rev (butlast ?q))))
            = Done [] (Some (Failure ''boom''))"
    by code_simp
  have ne: "?p \<noteq> []" "?q \<noteq> []" by simp_all
  from activate_check_guards [OF ne(1), of exTokens] activate_check_guards [OF ne(2), of exTokens]
  show ?thesis by (simp only: c1 c2)
qed

text \<open>
  C4. \<^verbatim>\<open>checkGuards\<close> calls the guards of all checks one after the other, in the
  order of the checks, in the turn in which it is subscribed, and takes their answers in
  the order in which they arrive. For checks as \<^verbatim>\<open>traverse\<close> records them whose
  deactivate-checks carry the outgoing snapshot, it is the conjunction of the guards of
  all checks, taken turn by turn and in every turn in the order of the calls: the first
  answer that is not \<^verbatim>\<open>true\<close> makes it \<^verbatim>\<open>false\<close>, and a failure that
  comes before makes it fail. So it emits \<^verbatim>\<open>true\<close> exactly when
  every guard of every check evaluates to true. When no guard fails, it emits the
  conjunction of the guards' answers. When a guard is denied in the turn in which it is
  called, and no guard before it has been denied or has failed in that turn, it emits
  \<^verbatim>\<open>false\<close> in that turn whatever the guards after that one would do, and whatever
  the guards before it answer later: the result is the same for any guards \<open>g'\<close> that
  agree with \<open>g\<close> up to the denied guard. When instead a guard throws in that turn, it
  fails with what the guard has thrown, also when a guard before it is going to answer
  \<^verbatim>\<open>false\<close>. With no check it emits \<^verbatim>\<open>true\<close>.
\<close>

theorem checkGuards_is_short_circuit_conjunction:
  assumes "list_all recorded checks" and "list_all carriesSnapshot checks"
  shows "checkGuards g checks = conjunction (map (answer g) (concat (map guardCalls checks))) \<and>
         (delivered (checkGuards g checks) = ([JBool True], None) \<longleftrightarrow>
            list_all evaluatesToTrue (map (answer g) (concat (map guardCalls checks)))) \<and>
         (list_all (\<lambda>ob. ending ob = None) (map (answer g) (concat (map guardCalls checks))) \<longrightarrow>
            delivered (checkGuards g checks) =
              ([JBool (list_all evaluatesToTrue (map (answer g) (concat (map guardCalls checks))))],
               None)) \<and>
         (\<forall>pre call rest g'.
            concat (map guardCalls checks) = pre @ call # rest \<and>
            list_all passesNow (map (answer g) pre) \<and>
            list_all (\<lambda>x. answer g' x = answer g x) (pre @ [call]) \<longrightarrow>
            (deniesNow (answer g call) \<longrightarrow> checkGuards g' checks = Done [JBool False] None) \<and>
            (\<forall>e. failsNow (answer g call) e \<longrightarrow> checkGuards g' checks = Done [] (Some e))) \<and>
         checkGuards g [] = Done [JBool True] None"
proof (intro conjI allI impI)
  show "checkGuards g checks = conjunction (map (answer g) (concat (map guardCalls checks)))"
    by (rule checkGuards_conjunction [OF assms])
next
  show "delivered (checkGuards g checks) = ([JBool True], None) \<longleftrightarrow>
          list_all evaluatesToTrue (map (answer g) (concat (map guardCalls checks)))"
    by (simp only: checkGuards_conjunction [OF assms] conjunction_True_iff)
next
  assume "list_all (\<lambda>ob. ending ob = None) (map (answer g) (concat (map guardCalls checks)))"
  then show "delivered (checkGuards g checks) =
      ([JBool (list_all evaluatesToTrue (map (answer g) (concat (map guardCalls checks))))], None)"
    by (simp only: checkGuards_conjunction [OF assms] conjunction_no_failure)
next
  fix pre call rest g'
  assume h: "concat (map guardCalls checks) = pre @ call # rest \<and>
            list_all passesNow (map (answer g) pre) \<and>
            list_all (\<lambda>x. answer g' x = answer g x) (pre @ [call])"
  then have same: "map (answer g') pre = map (answer g) pre" "answer g' call = answer g call"
    by (simp_all add: list_all_iff)
  have "checkGuards g' checks = conjunction (map (answer g') (pre @ call # rest))"
    using h by (simp only: checkGuards_conjunction [OF assms])
  then have eq: "checkGuards g' checks =
                   conjunction (map (answer g) pre @ answer g call # map (answer g') rest)"
    by (simp only: same map_append list.map)
  {
    assume "deniesNow (answer g call)"
    with h show "checkGuards g' checks = Done [JBool False] None"
      by (simp only: eq) (intro conjunction_denied_now, simp_all)
  }
  {
    fix e
    assume "failsNow (answer g call) e"
    with h show "checkGuards g' checks = Done [] (Some e)"
      by (simp only: eq) (intro conjunction_fails_now, simp_all)
  }
next
  show "checkGuards g [] = Done [JBool True] None"
    by (simp add: checkGuards_def Observable_of_def)
qed

theorem checkGuards_is_short_circuit_conjunction_witness:
  "checkGuards exTokens [CanActivate [exRoot, exGuarded 3 [''yes'', ''later'', ''no'', ''boom''] []]]
     = Done [JBool False] None \<and>
   delivered (checkGuards exTokens [CanActivate [exRoot, exGuarded 3 [''yes'', ''later''] []]])
     = ([JBool True], None) \<and>
   checkGuards exTokens [CanActivate [exRoot, exGuarded 3 [''yes'', ''laterNo'', ''boom'', ''no''] []]]
     = Done [] (Some (Failure ''boom''))"
proof -
  let ?n = "exGuarded 3 [''yes'', ''later'', ''no'', ''boom''] []"
  let ?m = "exGuarded 3 [''yes'', ''later''] []"
  let ?k = "exGuarded 3 [''yes'', ''laterNo'', ''boom'', ''no''] []"
  have calls: "concat (map guardCalls [CanActivate [exRoot, ?n]])
                 = [CallCanActivate ''yes'' ?n, CallCanActivate ''later'' ?n]
                   @ CallCanActivate ''no'' ?n # [CallCanActivate ''boom'' ?n]"
    by (simp add: predicates_def exGuarded_def exRoot_def ancestors_def)
  have calls': "concat (map guardCalls [CanActivate [exRoot, ?m]])
                 = [CallCanActivate ''yes'' ?m, CallCanActivate ''later'' ?m]"
    by (simp add: predicates_def exGuarded_def exRoot_def ancestors_def)
  have calls'': "concat (map guardCalls [CanActivate [exRoot, ?k]])
                 = [CallCanActivate ''yes'' ?k, CallCanActivate ''laterNo'' ?k]
                   @ CallCanActivate ''boom'' ?k # [CallCanActivate ''no'' ?k]"
    by (simp add: predicates_def exGuarded_def exRoot_def ancestors_def)
  have pre: "list_all passesNow
               (map (answer exTokens) [CallCanActivate ''yes'' ?n, CallCanActivate ''later'' ?n])"
    and den: "deniesNow (answer exTokens (CallCanActivate ''no'' ?n))"
    and pre': "list_all evaluatesToTrue
               (map (answer exTokens) [CallCanActivate ''yes'' ?m, CallCanActivate ''later'' ?m])"
    and pre'': "list_all passesNow
               (map (answer exTokens) [CallCanActivate ''yes'' ?k, CallCanActivate ''laterNo'' ?k])"
    and thr: "failsNow (answer exTokens (CallCanActivate ''boom'' ?k)) (Failure ''boom'')"
    by (simp_all add: evaluatesToTrue_def deniesNow_def exTokens_def exAnswer_def)
  have r: "list_all recorded [CanActivate [exRoot, ?n]]" "list_all recorded [CanActivate [exRoot, ?m]]"
    "list_all recorded [CanActivate [exRoot, ?k]]"
    and cs: "list_all carriesSnapshot [CanActivate [exRoot, ?n]]"
    "list_all carriesSnapshot [CanActivate [exRoot, ?m]]"
    "list_all carriesSnapshot [CanActivate [exRoot, ?k]]"
    by simp_all
  have same: "list_all (\<lambda>x. answer exTokens x = answer exTokens x) xs" for xs
    by (simp add: list_all_iff)
  note short = checkGuards_is_short_circuit_conjunction
    [OF r(1) cs(1), of exTokens, THEN conjunct2, THEN conjunct2, THEN conjunct2, THEN conjunct1,
     rule_format,
     where pre = "[CallCanActivate ''yes'' ?n, CallCanActivate ''later'' ?n]"
       and call = "CallCanActivate ''no'' ?n" and rest = "[CallCanActivate ''boom'' ?n]"
       and g' = exTokens]
  from short [OF conjI [OF calls conjI [OF pre same]], THEN conjunct1] den
  have "checkGuards exTokens [CanActivate [exRoot, ?n]] = Done [JBool False] None"
    by simp
  moreover
  from checkGuards_is_short_circuit_conjunction
         [OF r(2) cs(2), of exTokens, THEN conjunct2, THEN conjunct1]
  have "delivered (checkGuards exTokens [CanActivate [exRoot, ?m]]) = ([JBool True], None)"
    by (simp only: calls' pre')
  moreover
  note throw = checkGuards_is_short_circuit_conjunction
    [OF r(3) cs(3), of exTokens, THEN conjunct2, THEN conjunct2, THEN conjunct2, THEN conjunct1,
     rule_format,
     where pre = "[CallCanActivate ''yes'' ?k, CallCanActivate ''laterNo'' ?k]"
       and call = "CallCanActivate ''boom'' ?k" and rest = "[CallCanActivate ''no'' ?k]"
       and g' = exTokens]
  from throw [OF conjI [OF calls'' conjI [OF pre'' same]], THEN conjunct2] thr
  have "checkGuards exTokens [CanActivate [exRoot, ?k]] = Done [] (Some (Failure ''boom''))"
    by simp
  ultimately show ?thesis by simp
qed

text \<open>
  A guard answers with a promise of \<^verbatim>\<open>false\<close> and the guard after it throws:
  the result is not \<^verbatim>\<open>false\<close>. The second guard is called before the promise of
  the first is delivered, and \<^verbatim>\<open>checkGuards\<close> fails with what it throws.
\<close>

theorem denied_guard_before_throwing_guard_counterexample:
  "concat (map guardCalls [CanActivate [exRoot, exGuarded 3 [''laterNo'', ''boom''] []]])
     = [CallCanActivate ''laterNo'' (exGuarded 3 [''laterNo'', ''boom''] []),
        CallCanActivate ''boom'' (exGuarded 3 [''laterNo'', ''boom''] [])] \<and>
   delivered (answer exTokens (CallCanActivate ''laterNo'' (exGuarded 3 [''laterNo'', ''boom''] [])))
     = ([JBool False], None) \<and>
   checkGuards exTokens [CanActivate [exRoot, exGuarded 3 [''laterNo'', ''boom''] []]]
     = Done [] (Some (Failure ''boom'')) \<and>
   delivered (checkGuards exTokens [CanActivate [exRoot, exGuarded 3 [''laterNo'', ''boom''] []]])
     \<noteq> ([JBool False], None)"
  by code_simp

section \<open>Properties of the navigation sequencing\<close>

subsection \<open>What the observable chain delivers\<close>

lemma every_cases:
  "delivered (every p ob) = ([JBool True], None) \<or> delivered (every p ob) = ([JBool False], None) \<or>
   (\<exists>e. delivered (every p ob) = ([], Some e))"
  by (induction ob) (auto simp: delivered_def split: option.splits)

lemma checkGuards_cases:
  "delivered (checkGuards g checks) = ([JBool True], None) \<or>
   delivered (checkGuards g checks) = ([JBool False], None) \<or>
   (\<exists>e. delivered (checkGuards g checks) = ([], Some e))"
  using every_cases [of isTrue "mergeAll (map_obs (runCheck g) (Observable_from checks))"]
  by (auto simp: checkGuards_def Observable_of_def delivered_def)

lemma delivered_reduce_from:
  "delivered (reduce_from acc ob) =
     (case ending ob of
        Some e \<Rightarrow> ([], Some e)
      | None \<Rightarrow> ((case acc of Some x \<Rightarrow> [x] | None \<Rightarrow> take 1 (values_obs ob)), None))"
proof (induction ob arbitrary: acc)
  case (Done xs t)
  show ?case by (cases t; cases acc; cases xs) (simp_all add: delivered_def)
next
  case (Wait xs ob)
  have "delivered (reduce_from acc (Wait xs ob)) =
          delivered (reduce_from
                       (case acc of Some x \<Rightarrow> Some x
                        | None \<Rightarrow> (case xs of [] \<Rightarrow> None | x # xs' \<Rightarrow> Some x)) ob)"
    by (simp add: delivered_def)
  then show ?case
    by (cases "ending ob"; cases acc; cases xs) (simp_all add: Wait)
qed

lemma foldr_merge_singletons:
  assumes "list_all (\<lambda>ob. (\<exists>v. ob = Done [v] None) \<or> (\<exists>e. ob = Done [] (Some e))) obs"
  shows "ending (foldr merge obs (Done [] None)) = None \<longrightarrow>
           length (values_obs (foldr merge obs (Done [] None))) = length obs"
  using assms
proof (induction obs)
  case Nil
  then show ?case by simp
next
  case (Cons ob obs)
  then show ?case
    by (cases "foldr merge obs (Done [] None)") auto
qed

lemma resolveData_cases:
  "(\<exists>v. delivered (resolveData g checks) = ([v], None)) \<or>
   (\<exists>e. delivered (resolveData g checks) = ([], Some e))"
proof (cases "length checks = 0")
  case True
  then show ?thesis by (simp add: resolveData_def Observable_of_def delivered_def)
next
  case False
  let ?f = "\<lambda>s. case s of
                CanActivate p \<Rightarrow>
                  if p = [] then Inl (TypeError ''_resolve'')
                  else Inr (runResolve g (last p))
              | CanDeactivate cmp r \<Rightarrow> Inr (Observable_of JNull)"
  let ?obs = "map (\<lambda>x. case ?f x of Inl e \<Rightarrow> Done [] (Some e) | Inr ob \<Rightarrow> ob) checks"
  let ?m = "foldr merge ?obs (Done [] None)"
  have m: "mergeAll (map_obs ?f (Observable_from checks)) = ?m"
    by (simp only: Observable_from_def mergeAll_map_obs)
  have "list_all (\<lambda>ob. (\<exists>v. ob = Done [v] None) \<or> (\<exists>e. ob = Done [] (Some e))) ?obs"
    by (auto simp: list_all_iff runResolve_def Observable_of_def
          split: Check.splits if_splits option.splits)
  then have len: "ending ?m = None \<longrightarrow> length (values_obs ?m) = length checks"
    using foldr_merge_singletons [of ?obs] by simp
  have rd: "resolveData g checks = reduce_from None ?m"
    using False by (simp only: resolveData_def reduce_first_def m if_False)
  show ?thesis
  proof (cases "ending ?m")
    case None
    with len False obtain v vs where "values_obs ?m = v # vs"
      by (cases "values_obs ?m") auto
    with None show ?thesis
      by (simp only: rd delivered_reduce_from) simp
  next
    case (Some e)
    then show ?thesis
      by (simp only: rd delivered_reduce_from) simp
  qed
qed

lemma delivered_merge_empty_right:
  "delivered b = ([], None) \<Longrightarrow> delivered (merge a b) = delivered a"
  by (induction a b rule: merge.induct) (auto simp: delivered_def)

lemma delivered_mergeAll_map_obs_empty:
  "delivered ob = ([], t) \<Longrightarrow> delivered (mergeAll (map_obs f ob)) = ([], t)"
  by (induction ob) (auto simp: delivered_def)

lemma delivered_mergeAll_map_obs_single:
  assumes "delivered ob = ([v], None)" and "f v = Inr inner"
  shows "delivered (mergeAll (map_obs f ob)) = delivered inner"
  using assms(1)
proof (induction ob)
  case (Done xs t)
  then show ?case by (simp add: delivered_def assms(2))
next
  case (Wait xs ob)
  show ?case
  proof (cases xs)
    case Nil
    with Wait show ?thesis by (simp add: delivered_def)
  next
    case (Cons x xs')
    with Wait.prems have x: "x = v" "xs' = []" and rest: "delivered ob = ([], None)"
      by (simp_all add: delivered_def)
    have "delivered (Wait [] (mergeAll (map_obs f ob))) = ([], None)"
      using delivered_mergeAll_map_obs_empty [OF rest, of f] by (simp add: delivered_def)
    from delivered_merge_empty_right [OF this, of inner] show ?thesis
      by (simp add: Cons x assms(2))
  qed
qed

lemma delivered_map_obs_const:
  "delivered (map_obs (\<lambda>_. Inr c) ob) = (map (\<lambda>_. c) (values_obs ob), ending ob)"
proof -
  have mv: "mapValues (\<lambda>_. Inr c) xs = (map (\<lambda>_. c) xs, None)" for xs :: "'b list"
    by (induction xs) simp_all
  show ?thesis by (induction ob) (simp_all add: delivered_def mv)
qed

lemma shouldActivate_obs_denied:
  assumes "delivered (checkGuards g checks) = ([JBool False], None)"
  shows "delivered (shouldActivate_obs g checks) = ([JBool False], None)"
  unfolding shouldActivate_obs_def
  by (subst delivered_mergeAll_map_obs_single [OF assms, where inner = "Observable_of (JBool False)"])
     (simp_all add: truthy_def Observable_of_def delivered_def)

lemma shouldActivate_obs_guard_fails:
  assumes "delivered (checkGuards g checks) = ([], Some e)"
  shows "delivered (shouldActivate_obs g checks) = ([], Some e)"
  unfolding shouldActivate_obs_def
  by (rule delivered_mergeAll_map_obs_empty [OF assms])

lemma shouldActivate_obs_approved:
  assumes "delivered (checkGuards g checks) = ([JBool True], None)"
  shows "delivered (shouldActivate_obs g checks) =
           (map (\<lambda>_. JBool True) (values_obs (resolveData g checks)), ending (resolveData g checks))"
  unfolding shouldActivate_obs_def
  by (subst delivered_mergeAll_map_obs_single
        [OF assms, where inner = "map_obs (\<lambda>_. Inr (JBool True)) (resolveData g checks)"])
     (simp_all add: truthy_def delivered_map_obs_const)

lemma shouldActivate_obs_resolver_fails:
  assumes "delivered (checkGuards g checks) = ([JBool True], None)"
    and "delivered (resolveData g checks) = ([], Some e)"
  shows "delivered (shouldActivate_obs g checks) = ([], Some e)"
  using assms(2) unfolding shouldActivate_obs_approved [OF assms(1)]
  by (simp add: delivered_def)

lemma shouldActivate_obs_cases:
  "delivered (shouldActivate_obs g checks) = ([JBool True], None) \<or>
   delivered (shouldActivate_obs g checks) = ([JBool False], None) \<or>
   (\<exists>e. delivered (shouldActivate_obs g checks) = ([], Some e))"
proof -
  from checkGuards_cases [of g checks]
  consider (t) "delivered (checkGuards g checks) = ([JBool True], None)"
    | (f) "delivered (checkGuards g checks) = ([JBool False], None)"
    | (e) e where "delivered (checkGuards g checks) = ([], Some e)"
    by blast
  then show ?thesis
  proof cases
    case t
    from resolveData_cases [of g checks] show ?thesis
      unfolding shouldActivate_obs_approved [OF t]
      by (auto simp: delivered_def)
  next
    case f
    then show ?thesis by (simp add: shouldActivate_obs_denied)
  next
    case e
    then show ?thesis by (simp add: shouldActivate_obs_guard_fails)
  qed
qed

lemma pipeline_cases:
  assumes "pipeline ser c url ident r = (r1, res)"
  shows "(r1 = r \<or> (\<exists>u s. r1 = emit (RoutesRecognized ident (ser url) (ser u) s) r)) \<and>
         (case res of
            Inl e \<Rightarrow> True
          | Inr (au, state, sa) \<Rightarrow> \<exists>checks. shouldActivate_obs (guards c) checks = sa)"
  using assms
  by (auto simp: pipeline_def Let_def split: sum.splits)

lemma commit_cancel:
  "\<not> truthy v \<or> ident \<noteq> navigationId r \<Longrightarrow>
   commit ser mnt url p ident st au state v (r, n) =
     (None, emit (NavigationCancel ident (ser url)) r, Some False)"
  by (auto simp: commit_def)

lemma commit_go:
  assumes "truthy v" "ident = navigationId r"
    and "activate mnt state (Some st) (Some (outletMap_r r)) = (e, state', om, effs)"
  shows "commit ser mnt url p ident st au state v (r, n) =
     (if e \<noteq> None then (e, adopt au state' om effs r, n)
      else if p then (None, adopt au state' om effs r, Some True)
      else (None,
            (adopt au state' om effs r)
              \<lparr>location := (if currentPath (location r) = ser au
                             then replaceState (ser au) (location r)
                             else go (ser au) (location r))\<rparr>,
            Some True))"
  using assms
  by (auto simp: commit_def adopt_def Let_def isCurrentPathEqualTo_def)

lemma forEach_obs_failed:
  "delivered ob = ([], t) \<Longrightarrow> forEach_obs f ob s = (t, s)"
  by (induction ob) (simp_all add: delivered_def)

lemma forEach_obs_single:
  assumes "delivered ob = ([v], None)"
  shows "forEach_obs f ob s =
           (case f v s of (Some e, s') \<Rightarrow> (Some e, s') | (None, s') \<Rightarrow> (None, s'))"
  using assms
proof (induction ob)
  case (Done xs t)
  then show ?case by (auto simp: delivered_def split: prod.splits option.splits)
next
  case (Wait xs ob)
  show ?case
  proof (cases xs)
    case Nil
    with Wait show ?thesis by (simp add: delivered_def)
  next
    case (Cons x xs')
    with Wait.prems have x: "x = v" "xs' = []" and rest: "delivered ob = ([], None)"
      by (simp_all add: delivered_def)
    show ?thesis
      by (auto simp: Cons x forEach_obs_failed [OF rest] split: prod.splits option.splits)
  qed
qed

lemma forEach_promise_Inl:
  "pipeline ser c url ident r = (r1, Inl e) \<Longrightarrow>
   forEach_promise ser c url p ident st r = Inl (e, r1)"
  by (simp add: forEach_promise_def)

lemma forEach_promise_failed:
  "pipeline ser c url ident r = (r1, Inr (au, state, sa)) \<Longrightarrow> delivered sa = ([], Some e) \<Longrightarrow>
   forEach_promise ser c url p ident st r = Inl (e, r1)"
  by (simp add: forEach_promise_def forEach_obs_failed)

lemma forEach_promise_cancel:
  assumes "pipeline ser c url ident r = (r1, Inr (au, state, sa))"
    and "delivered sa = ([v], None)"
    and "\<not> truthy v \<or> ident \<noteq> navigationId r1"
  shows "forEach_promise ser c url p ident st r =
           Inr (au, emit (NavigationCancel ident (ser url)) r1, Some False)"
  using assms(1,3) by (simp add: forEach_promise_def forEach_obs_single [OF assms(2)] commit_cancel)

lemma forEach_promise_approved:
  assumes "pipeline ser c url ident r = (r1, Inr (au, state, sa))"
    and "delivered sa = ([v], None)"
    and "truthy v" and "ident = navigationId r1"
    and "activate (mount c) state (Some st) (Some (outletMap_r r1)) = (e, state', om, effs)"
  shows "forEach_promise ser c url p ident st r =
           (case e of
              Some x \<Rightarrow> Inl (x, adopt au state' om effs r1)
            | None \<Rightarrow>
                Inr (au,
                     (if p then adopt au state' om effs r1
                      else (adopt au state' om effs r1)
                             \<lparr>location := (if currentPath (location r1) = ser au
                                            then replaceState (ser au) (location r1)
                                            else go (ser au) (location r1))\<rparr>),
                     Some True))"
proof -
  have "forEach_obs
          (\<lambda>shouldActivate rn.
             case commit ser (mount c) url p ident st au state shouldActivate rn of
               (e, r', n') \<Rightarrow> (e, (r', n')))
          sa (r1, None) =
        (if e \<noteq> None then (e, adopt au state' om effs r1, None)
         else if p then (None, adopt au state' om effs r1, Some True)
         else (None,
               (adopt au state' om effs r1)
                 \<lparr>location := (if currentPath (location r1) = ser au
                                then replaceState (ser au) (location r1)
                                else go (ser au) (location r1))\<rparr>,
               Some True))"
    by (cases e)
       (simp_all add: forEach_obs_single [OF assms(2)] commit_go [OF assms(3) assms(4) assms(5)])
  with assms(1) show ?thesis
    by (cases e) (simp_all add: forEach_promise_def)
qed


lemma pipeline_router:
  assumes "pipeline ser c url ident r = (r1, res)"
  obtains recognized where "r1 = r\<lparr>routerEvents := routerEvents r @ recognized\<rparr>"
    and "recognized = [] \<or> (\<exists>u s. recognized = [RoutesRecognized ident (ser url) (ser u) s])"
proof -
  from pipeline_cases [OF assms]
  have "r1 = r \<or> (\<exists>u s. r1 = emit (RoutesRecognized ident (ser url) (ser u) s) r)"
    by simp
  then show ?thesis
  proof
    assume "r1 = r"
    then have "r1 = r\<lparr>routerEvents := routerEvents r @ []\<rparr>" by simp
    then show ?thesis using that by blast
  next
    assume "\<exists>u s. r1 = emit (RoutesRecognized ident (ser url) (ser u) s) r"
    then obtain u s where "r1 = emit (RoutesRecognized ident (ser url) (ser u) s) r"
      by blast
    then have "r1 = r\<lparr>routerEvents := routerEvents r @ [RoutesRecognized ident (ser url) (ser u) s]\<rparr>"
      by (simp add: emit_def)
    then show ?thesis using that by blast
  qed
qed

lemma runNavigate_body_cases:
  fixes r :: "'u Router"
  obtains
    (rejected) e rx r' recognized where
      "forEach_promise ser c url p ident st r = Inl (e, rx)"
      "runNavigate_body ser c url p ident st su r = (Rejected e, r')"
      "currentRouterState r' = st" "currentUrlTree r' = su"
      "location r' = location r" "navigationId r' = navigationId r"
      "routerEvents r' = routerEvents r @ recognized @ [NavigationError ident (ser url) e]"
      "recognized = [] \<or> (\<exists>u s. recognized = [RoutesRecognized ident (ser url) (ser u) s])"
  | (cancelled) au r' recognized where
      "forEach_promise ser c url p ident st r = Inr (au, r'\<lparr>routerEvents := butlast (routerEvents r')\<rparr>, Some False)"
      "runNavigate_body ser c url p ident st su r = (Resolved (Some False), r')"
      "currentRouterState r' = currentRouterState r" "currentUrlTree r' = currentUrlTree r"
      "location r' = location r" "navigationId r' = navigationId r"
      "outletMap_r r' = outletMap_r r" "effects_r r' = effects_r r"
      "routerEvents r' = routerEvents r @ recognized @
         [NavigationCancel ident (ser url), NavigationEnd ident (ser url) (ser au)]"
      "recognized = [] \<or> (\<exists>u s. recognized = [RoutesRecognized ident (ser url) (ser u) s])"
  | (committed) au r' recognized where
      "ident = navigationId r"
      "runNavigate_body ser c url p ident st su r = (Resolved (Some True), r')"
      "currentUrlTree r' = au"
      "location r' =
         (if p then location r
          else if currentPath (location r) = ser au
               then replaceState (ser au) (location r)
               else go (ser au) (location r))"
      "navigationId r' = navigationId r"
      "routerEvents r' = routerEvents r @ recognized @ [NavigationEnd ident (ser url) (ser au)]"
      "recognized = [] \<or> (\<exists>u s. recognized = [RoutesRecognized ident (ser url) (ser u) s])"
proof -
  obtain r1 res where pl: "pipeline ser c url ident r = (r1, res)"
    by (cases "pipeline ser c url ident r")
  from pipeline_router [OF pl] obtain recognized where
    r1: "r1 = r\<lparr>routerEvents := routerEvents r @ recognized\<rparr>"
    and rec: "recognized = [] \<or> (\<exists>u s. recognized = [RoutesRecognized ident (ser url) (ser u) s])"
    by blast
  have fail: ?thesis if "forEach_promise ser c url p ident st r = Inl (e, r1)" for e
  proof (rule rejected [where recognized = recognized, OF that])
    show "runNavigate_body ser c url p ident st su r =
            (Rejected e, emit (NavigationError ident (ser url) e)
                           (r1\<lparr>currentRouterState := st, currentUrlTree := su\<rparr>))"
      using that by (simp add: runNavigate_body_def settle_failure_def)
  qed (simp_all add: r1 emit_def rec)
  have cancel: ?thesis
    if "forEach_promise ser c url p ident st r =
          Inr (au, emit (NavigationCancel ident (ser url)) r1, Some False)" for au
  proof (rule cancelled [where au = au and recognized = recognized and
        r' = "emit (NavigationEnd ident (ser url) (ser au))
                (emit (NavigationCancel ident (ser url)) r1)"])
    show "runNavigate_body ser c url p ident st su r =
            (Resolved (Some False),
             emit (NavigationEnd ident (ser url) (ser au))
               (emit (NavigationCancel ident (ser url)) r1))"
      using that by (simp add: runNavigate_body_def settle_success_def)
  qed (simp_all add: that r1 emit_def rec butlast_append)
  show ?thesis
  proof (cases res)
    case (Inl e)
    with pl show ?thesis by (intro fail forEach_promise_Inl) simp
  next
    case (Inr t)
    then obtain au state sa where t: "res = Inr (au, state, sa)"
      by (cases t) auto
    with pipeline_cases [OF pl] obtain checks where sa: "sa = shouldActivate_obs (guards c) checks"
      by auto
    from shouldActivate_obs_cases [of "guards c" checks] sa
    consider (approved) "delivered sa = ([JBool True], None)"
      | (denied) "delivered sa = ([JBool False], None)"
      | (failed) e where "delivered sa = ([], Some e)"
      by auto
    then show ?thesis
    proof cases
      case failed
      with pl t show ?thesis by (intro fail forEach_promise_failed [where sa = sa]) simp_all
    next
      case denied
      with pl t show ?thesis
        by (intro cancel forEach_promise_cancel [where v = "JBool False" and sa = sa])
           (simp_all add: truthy_def)
    next
      case approved
      show ?thesis
      proof (cases "ident = navigationId r")
        case False
        with approved pl t r1 show ?thesis
          by (intro cancel forEach_promise_cancel [where v = "JBool True" and sa = sa]) simp_all
      next
        case True
        obtain e state' om effs where
          act: "activate (mount c) state (Some st) (Some (outletMap_r r1)) = (e, state', om, effs)"
          by (cases "activate (mount c) state (Some st) (Some (outletMap_r r1))") auto
        have tr: "truthy (JBool True)" by (simp add: truthy_def)
        from True r1 have idr1: "ident = navigationId r1" by simp
        from pl t have pl': "pipeline ser c url ident r = (r1, Inr (au, state, sa))"
          by simp
        note fp = forEach_promise_approved [OF pl' approved tr idr1 act, of p]
        show ?thesis
        proof (cases e)
          case (Some x)
          with fp have fx: "forEach_promise ser c url p ident st r = Inl (x, adopt au state' om effs r1)"
            by simp
          show ?thesis
          proof (rule rejected [where recognized = recognized, OF fx])
            show "runNavigate_body ser c url p ident st su r =
                    (Rejected x, emit (NavigationError ident (ser url) x)
                       ((adopt au state' om effs r1)\<lparr>currentRouterState := st, currentUrlTree := su\<rparr>))"
              using fx by (simp add: runNavigate_body_def settle_failure_def)
          qed (simp_all add: r1 emit_def rec adopt_def)
        next
          case None
          let ?r3 = "(if p then adopt au state' om effs r1
                      else (adopt au state' om effs r1)
                             \<lparr>location := (if currentPath (location r1) = ser au
                                            then replaceState (ser au) (location r1)
                                            else go (ser au) (location r1))\<rparr>)"
          from None fp have fx: "forEach_promise ser c url p ident st r = Inr (au, ?r3, Some True)"
            by simp
          show ?thesis
          proof (rule committed [OF True, where au = au and recognized = recognized])
            show "runNavigate_body ser c url p ident st su r =
                    (Resolved (Some True), emit (NavigationEnd ident (ser url) (ser au)) ?r3)"
              using fx by (simp add: runNavigate_body_def settle_success_def)
          qed (simp_all add: r1 emit_def rec adopt_def)
        qed
      qed
    qed
  qed
qed

text \<open>
  Every stage that fails makes the promise of \<^verbatim>\<open>forEach\<close> reject: the stages
  before the guards through \<open>forEach_promise_Inl\<close>, the guards and the resolvers
  through \<open>forEach_promise_failed\<close>, and the commit through
  \<open>forEach_promise_approved\<close>.
\<close>

lemma pipeline_applyRedirects_fails:
  "applyRedirects c url = Inl e \<Longrightarrow> pipeline ser c url ident r = (r, Inl e)"
  by (simp add: pipeline_def)

lemma pipeline_recognize_fails:
  "applyRedirects c url = Inr u \<Longrightarrow> recognize c u = Inl e \<Longrightarrow>
   pipeline ser c url ident r = (r, Inl e)"
  by (simp add: pipeline_def)

text \<open>
  A throw of \<^verbatim>\<open>traverse\<close> is such a failure: the navigation is rejected with it,
  after \<^verbatim>\<open>RoutesRecognized\<close>, and no guard is evaluated.
\<close>

lemma traverse_failure_rejects_navigation:
  assumes "applyRedirects c url = Inr au" and "recognize c au = Inr s" and "resolve c s = Inr s'"
    and "traverse (root_ss (snapshot_s (createRouterState c s' (currentRouterState r))))
           (Some (root_ss (snapshot_s (currentRouterState r)))) (Some (outletMap_r r)) = Inl e"
  shows "\<exists>r'. runNavigate_body ser c url p ident st su r = (Rejected e, r') \<and>
              routerEvents r' =
                routerEvents r @ [RoutesRecognized ident (ser url) (ser au) s,
                                  NavigationError ident (ser url) e]"
proof -
  from assms have "pipeline ser c url ident r =
      (emit (RoutesRecognized ident (ser url) (ser au) s) r, Inl e)"
    by (simp add: pipeline_def emit_def)
  from forEach_promise_Inl [OF this, of p st] show ?thesis
    by (simp add: runNavigate_body_def settle_failure_def emit_def)
qed

subsection \<open>A navigation that fails\<close>







subsection \<open>A navigation that a guard denies\<close>

lemma denied_navigation:
  assumes "pipeline ser c url ident r = (r1, Inr (au, state, sa))"
    and "delivered sa = ([JBool False], None)"
  shows "runNavigate_body ser c url p ident st su r =
           (Resolved (Some False),
            r1\<lparr>routerEvents := routerEvents r1 @
                  [NavigationCancel ident (ser url), NavigationEnd ident (ser url) (ser au)]\<rparr>)"
  using forEach_promise_cancel [OF assms, of p st]
  by (simp add: runNavigate_body_def settle_success_def emit_def truthy_def)

text \<open>
  C1. The guard of \<^verbatim>\<open>team/:id\<close> answers \<^verbatim>\<open>false\<close>: \<^verbatim>\<open>checkGuards\<close> emits
  \<^verbatim>\<open>false\<close>, the promise resolves to \<^verbatim>\<open>false\<close>, the pair, the location and the
  outlets are as before, and the router has emitted \<^verbatim>\<open>NavigationCancel\<close> with the
  attempted URL, followed by \<^verbatim>\<open>NavigationEnd\<close> for the same navigation.
\<close>

theorem denied_navigation_emits_cancel_then_end:
  "checkGuards (exGuards False) [CanActivate [exRoot, exTeam ''33'']] = Done [JBool False] None \<and>
   runNavigate exSerialize (exCollaborators False) ''/team/33'' False 1 (exScheduled ''/team/33'')
     = (Resolved (Some False),
        (exScheduled ''/team/33'')
          \<lparr>routerEvents :=
             [NavigationStart 1 ''/team/33'',
              RoutesRecognized 1 ''/team/33'' ''/team/33'' (exRecognize ''/team/33''),
              NavigationCancel 1 ''/team/33'',
              NavigationEnd 1 ''/team/33'' ''/team/33'']\<rparr>)"
  by code_simp

subsection \<open>The location\<close>

lemma runNavigate_body_location:
  assumes "runNavigate_body ser c url p ident st su r = (outcome, r')"
  shows "calls (location r') =
     calls (location r) @
       (if outcome = Resolved (Some True) \<and> \<not> p
        then [if currentPath (location r) = ser (currentUrlTree r')
              then ReplaceState (ser (currentUrlTree r'))
              else Go (ser (currentUrlTree r'))]
        else [])"
proof (cases rule: runNavigate_body_cases [of ser c url p ident st r su])
  case (rejected e rx r'' recognized)
  with assms have "outcome = Rejected e" "r' = r''" by simp_all
  with rejected show ?thesis by simp
next
  case (cancelled au r'' recognized)
  with assms have "outcome = Resolved (Some False)" "r' = r''" by simp_all
  with cancelled show ?thesis by simp
next
  case (committed au r'' recognized)
  with assms have "outcome = Resolved (Some True)" "r' = r''" by simp_all
  with committed show ?thesis by (simp add: go_def replaceState_def)
qed

lemma runNavigate_location:
  assumes "runNavigate ser c url p ident r = (outcome, r')"
  shows "calls (location r') =
     calls (location r) @
       (if ident \<noteq> navigationId r then [Go (ser (currentUrlTree r))]
        else if outcome = Resolved (Some True) \<and> \<not> p
        then [if currentPath (location r) = ser (currentUrlTree r')
              then ReplaceState (ser (currentUrlTree r'))
              else Go (ser (currentUrlTree r'))]
        else [])"
proof (cases "ident = navigationId r")
  case True
  with assms have "runNavigate_body ser c url p ident (currentRouterState r) (currentUrlTree r) r
                     = (outcome, r')"
    by (simp add: runNavigate_def runNavigate_superseded_def)
  from runNavigate_body_location [OF this] True show ?thesis by simp
next
  case False
  with assms show ?thesis
    by (auto simp: runNavigate_def runNavigate_superseded_def emit_def go_def)
qed

text \<open>
  C3, as the code has it. A navigation updates the location in two cases only. One that
  is no longer the latest when \<^verbatim>\<open>runNavigate\<close> starts calls \<^verbatim>\<open>go\<close> with the
  serialized current URL tree. Otherwise the location is updated exactly when the
  navigation commits (its promise resolves to \<^verbatim>\<open>true\<close>) and
  \<^verbatim>\<open>preventPushState\<close> is false: \<^verbatim>\<open>replaceState\<close> when the serialized applied
  URL is the current path, \<^verbatim>\<open>go\<close> otherwise. A navigation that a guard rejects, that
  is superseded at the test before the commit, or that fails makes no call; the second
  part states this for the body of \<^verbatim>\<open>runNavigate\<close> with any captured state and any
  router, as other navigations may have left it.
\<close>

theorem location_updates:
  assumes "runNavigate ser c url p ident r = (outcome, r')"
    and "runNavigate_body ser c url p ident st su rb = (outcome_b, rb')"
  shows "calls (location r') =
           calls (location r) @
             (if ident \<noteq> navigationId r then [Go (ser (currentUrlTree r))]
              else if outcome = Resolved (Some True) \<and> \<not> p
              then [if currentPath (location r) = ser (currentUrlTree r')
                    then ReplaceState (ser (currentUrlTree r'))
                    else Go (ser (currentUrlTree r'))]
              else []) \<and>
         calls (location rb') =
           calls (location rb) @
             (if outcome_b = Resolved (Some True) \<and> \<not> p
              then [if currentPath (location rb) = ser (currentUrlTree rb')
                    then ReplaceState (ser (currentUrlTree rb'))
                    else Go (ser (currentUrlTree rb'))]
              else [])"
  using runNavigate_location [OF assms(1)] runNavigate_body_location [OF assms(2)]
  by simp

theorem location_updates_witness:
  "calls (location (snd (runNavigate exSerialize (exCollaborators True) ''/a'' False 1
                           (exScheduled ''/a''))))
     = [Go ''/a''] \<and>
   calls (location (snd (runNavigate_body exSerialize (exCollaborators True) ''/a'' False 1
                           (currentRouterState exRouter) (currentUrlTree exRouter)
                           (router_w exRunning))))
     = []"
proof -
  have 1: "navigationId (exScheduled ''/a'') = Suc 0" "calls (location (exScheduled ''/a'')) = []"
    "fst (runNavigate exSerialize (exCollaborators True) ''/a'' False (Suc 0) (exScheduled ''/a''))
       = Resolved (Some True)"
    "currentPath (location (exScheduled ''/a'')) = ''/''"
    "currentUrlTree (snd (runNavigate exSerialize (exCollaborators True) ''/a'' False (Suc 0)
                            (exScheduled ''/a''))) = ''/a''"
    by code_simp+
  have 2: "calls (location (router_w exRunning)) = []"
    "fst (runNavigate_body exSerialize (exCollaborators True) ''/a'' False (Suc 0)
            (currentRouterState exRouter) (currentUrlTree exRouter) (router_w exRunning))
       = Resolved (Some False)"
    by code_simp+
  from location_updates [OF surjective_pairing surjective_pairing,
      of exSerialize "exCollaborators True" "''/a''" False "Suc 0" "exScheduled ''/a''"
         "currentRouterState exRouter" "currentUrlTree exRouter" "router_w exRunning"]
  show ?thesis
    by (simp add: 1 2 exSerialize_def)
qed

text \<open>
  C3, a cancelled navigation that updates the location: the first of two navigations
  issued back to back is cancelled when it starts to run, and it calls \<^verbatim>\<open>go\<close>.
\<close>

theorem cancelled_navigation_updates_location_counterexample:
  "navigationId (router_w exIssued) = 2 \<and>
   calls (location (router_w exIssued)) = [] \<and>
   runNavigate exSerialize (exCollaborators True) ''/a'' False 1 (router_w exIssued)
     = (Resolved (Some False),
        (router_w exIssued)
          \<lparr>routerEvents := routerEvents (router_w exIssued) @ [NavigationCancel 1 ''/a''],
           location := \<lparr>currentPath = ''/'', calls = [Go ''/'']\<rparr>\<rparr>)"
  by code_simp

subsection \<open>Navigations that overlap\<close>

lemma setPhase_last:
  "navs \<noteq> [] \<Longrightarrow> ident_n (last (setPhase i ph navs)) = ident_n (last navs)"
  by (simp add: setPhase_def last_map)

lemma setPhase_Nil [simp]: "setPhase i ph navs = [] \<longleftrightarrow> navs = []"
  by (simp add: setPhase_def)

lemma findNavigation_ident: "findNavigation i navs = Some n \<Longrightarrow> ident_n n = i"
  by (induction navs) (auto simp: findNavigation_def split: if_splits)

lemma findNavigation_setPhase:
  "findNavigation i navs = Some n \<Longrightarrow>
   findNavigation i (setPhase i ph navs) = Some (n\<lparr>phase_n := ph\<rparr>)"
  by (induction navs) (auto simp: findNavigation_def setPhase_def split: if_splits)

lemma findNavigation_nonempty: "findNavigation i navs = Some n \<Longrightarrow> navs \<noteq> []"
  by (auto simp: findNavigation_def)

lemma runNavigate_body_navigationId:
  "navigationId (snd (runNavigate_body ser c url p ident st su r)) = navigationId r"
  by (cases rule: runNavigate_body_cases [of ser c url p ident st r su]) simp_all

lemma step_counterIsLatest:
  assumes "counterIsLatest w"
  shows "counterIsLatest (step ser a w)"
proof (cases a)
  case (Navigate url p)
  then show ?thesis
    by (simp add: counterIsLatest_def scheduleNavigation_def emit_def Let_def)
next
  case (Enter i)
  show ?thesis
  proof (cases "findNavigation i (navigations_w w)")
    case None
    with Enter assms show ?thesis by simp
  next
    case (Some n)
    with assms findNavigation_nonempty [OF Some] Enter show ?thesis
      by (cases "phase_n n")
         (auto simp: counterIsLatest_def runNavigate_superseded_def emit_def setPhase_last)
  qed
next
  case (Deliver i c)
  show ?thesis
  proof (cases "findNavigation i (navigations_w w)")
    case None
    with Deliver assms show ?thesis by simp
  next
    case (Some n)
    show ?thesis
    proof (cases "phase_n n")
      case (Running st su)
      obtain outcome r' where
        rb: "runNavigate_body ser c (url_n n) (preventPushState_n n) i st su (router_w w) = (outcome, r')"
        by (cases "runNavigate_body ser c (url_n n) (preventPushState_n n) i st su (router_w w)")
      with runNavigate_body_navigationId [of ser c "url_n n" "preventPushState_n n" i st su "router_w w"]
      have "navigationId r' = navigationId (router_w w)" by simp
      with assms findNavigation_nonempty [OF Some] Deliver Some Running rb show ?thesis
        by (simp add: counterIsLatest_def setPhase_last)
    next
      case Scheduled
      with Deliver Some assms show ?thesis by simp
    next
      case (Settled outcome)
      with Deliver Some assms show ?thesis by simp
    qed
  qed
qed

lemma run_counterIsLatest:
  "counterIsLatest w \<Longrightarrow> counterIsLatest (run ser acts w)"
  by (induction acts arbitrary: w) (simp_all add: step_counterIsLatest)

lemma initialWorld_counterIsLatest: "counterIsLatest (initialWorld r)"
  by (simp add: counterIsLatest_def initialWorld_def)


text \<open>
  C2, as the code has it. In a world reached by any turns, take a navigation that is not
  the one issued last. If it has not started, the start of its \<^verbatim>\<open>runNavigate\<close>
  settles it: the promise resolves to \<^verbatim>\<open>false\<close>, \<^verbatim>\<open>NavigationCancel\<close> is the
  event emitted, and the authoritative pair is unchanged. If it is running, the delivery
  of its pipeline settles it: when the promise of \<^verbatim>\<open>forEach\<close> rejects, the
  navigation is rejected with that cause; otherwise it resolves to \<^verbatim>\<open>false\<close>,
  \<^verbatim>\<open>NavigationCancel\<close> is among the events it emits, and the authoritative pair is
  unchanged. In no case does it resolve to \<^verbatim>\<open>true\<close>.
\<close>

theorem superseded_navigation_is_cancelled:
  assumes "w = run ser acts (initialWorld r0)"
    and "findNavigation ident (navigations_w w) = Some n"
    and "ident \<noteq> ident_n (last (navigations_w w))"
  shows "(phase_n n = Scheduled \<longrightarrow>
            findNavigation ident (navigations_w (step ser (Enter ident) w))
              = Some (n\<lparr>phase_n := Settled (Resolved (Some False))\<rparr>) \<and>
            routerEvents (router_w (step ser (Enter ident) w))
              = routerEvents (router_w w) @ [NavigationCancel ident (ser (url_n n))] \<and>
            authoritative (router_w (step ser (Enter ident) w)) = authoritative (router_w w)) \<and>
         (\<forall>st su. phase_n n = Running st su \<longrightarrow>
            (case forEach_promise ser c (url_n n) (preventPushState_n n) ident st (router_w w) of
               Inl failure \<Rightarrow>
                 findNavigation ident (navigations_w (step ser (Deliver ident c) w))
                   = Some (n\<lparr>phase_n := Settled (Rejected (fst failure))\<rparr>)
             | Inr completed \<Rightarrow>
                 findNavigation ident (navigations_w (step ser (Deliver ident c) w))
                   = Some (n\<lparr>phase_n := Settled (Resolved (Some False))\<rparr>) \<and>
                 NavigationCancel ident (ser (url_n n))
                   \<in> set (drop (length (routerEvents (router_w w)))
                             (routerEvents (router_w (step ser (Deliver ident c) w)))) \<and>
                 authoritative (router_w (step ser (Deliver ident c) w))
                   = authoritative (router_w w)))"
proof -
  from assms(1) have "counterIsLatest w"
    by (simp add: run_counterIsLatest initialWorld_counterIsLatest)
  with assms(2,3) have stale: "ident \<noteq> navigationId (router_w w)"
    by (auto simp: counterIsLatest_def dest: findNavigation_nonempty)
  have enter: "phase_n n = Scheduled \<longrightarrow>
            findNavigation ident (navigations_w (step ser (Enter ident) w))
              = Some (n\<lparr>phase_n := Settled (Resolved (Some False))\<rparr>) \<and>
            routerEvents (router_w (step ser (Enter ident) w))
              = routerEvents (router_w w) @ [NavigationCancel ident (ser (url_n n))] \<and>
            authoritative (router_w (step ser (Enter ident) w)) = authoritative (router_w w)"
    using assms(2) stale
    by (simp add: runNavigate_superseded_def findNavigation_setPhase emit_def authoritative_def)
  have deliver: "case forEach_promise ser c (url_n n) (preventPushState_n n) ident st (router_w w) of
               Inl failure \<Rightarrow>
                 findNavigation ident (navigations_w (step ser (Deliver ident c) w))
                   = Some (n\<lparr>phase_n := Settled (Rejected (fst failure))\<rparr>)
             | Inr completed \<Rightarrow>
                 findNavigation ident (navigations_w (step ser (Deliver ident c) w))
                   = Some (n\<lparr>phase_n := Settled (Resolved (Some False))\<rparr>) \<and>
                 NavigationCancel ident (ser (url_n n))
                   \<in> set (drop (length (routerEvents (router_w w)))
                             (routerEvents (router_w (step ser (Deliver ident c) w)))) \<and>
                 authoritative (router_w (step ser (Deliver ident c) w))
                   = authoritative (router_w w)"
    if run: "phase_n n = Running st su" for st su
  proof (cases rule: runNavigate_body_cases
      [of ser c "url_n n" "preventPushState_n n" ident st "router_w w" su])
    case (rejected e rx r' recognized)
    with assms(2) run show ?thesis
      by (simp add: findNavigation_setPhase)
  next
    case (cancelled au r' recognized)
    with assms(2) run show ?thesis
      by (simp add: findNavigation_setPhase authoritative_def)
  next
    case (committed au r' recognized)
    with stale show ?thesis by simp
  qed
  from enter deliver show ?thesis by blast
qed

theorem superseded_navigation_is_cancelled_witness:
  "routerEvents (router_w (step exSerialize (Enter 1) exIssued))
     = routerEvents (router_w exIssued) @ [NavigationCancel 1 ''/a''] \<and>
   authoritative (router_w (step exSerialize (Enter 1) exIssued))
     = authoritative (router_w exIssued) \<and>
   NavigationCancel 1 ''/a''
     \<in> set (drop (length (routerEvents (router_w exRunning)))
               (routerEvents (router_w (step exSerialize (Deliver 1 (exCollaborators True))
                                          exRunning)))) \<and>
   authoritative (router_w (step exSerialize (Deliver 1 (exCollaborators True)) exRunning))
     = authoritative (router_w exRunning)"
proof -
  have f: "findNavigation 1 (navigations_w exIssued)
             = Some \<lparr>ident_n = 1, url_n = ''/a'', preventPushState_n = False, phase_n = Scheduled\<rparr>"
    by code_simp
  have l: "1 \<noteq> ident_n (last (navigations_w exIssued))" by code_simp
  have f': "findNavigation 1 (navigations_w exRunning)
              = Some \<lparr>ident_n = 1, url_n = ''/a'', preventPushState_n = False,
                      phase_n = Running (currentRouterState exRouter) (currentUrlTree exRouter)\<rparr>"
    by code_simp
  have l': "1 \<noteq> ident_n (last (navigations_w exRunning))" by code_simp
  have c': "\<not> isl (forEach_promise exSerialize (exCollaborators True) ''/a'' False 1
                     (currentRouterState exRouter) (router_w exRunning))"
    by code_simp
  from superseded_navigation_is_cancelled [OF exIssued_def f l]
       superseded_navigation_is_cancelled [OF exRunning_def f' l', of "exCollaborators True"] c'
  show ?thesis
    by (simp add: exSerialize_def sum.case_eq_if)
qed


text \<open>
  C2, a superseded navigation that is not cancelled: the first navigation is running when
  the second is issued, runs and commits \<^verbatim>\<open>/b\<close>; then the pipeline of the first fails. The first navigation is
  superseded, yet its promise rejects, no \<^verbatim>\<open>NavigationCancel\<close> is emitted for it, and
  the current URL tree goes from \<^verbatim>\<open>/b\<close> back to \<^verbatim>\<open>/\<close>.
\<close>

theorem superseded_navigation_rejected_counterexample:
  "findNavigation 1 (navigations_w exOvertaken)
     = Some \<lparr>ident_n = 1, url_n = ''/a'', preventPushState_n = False,
             phase_n = Running (currentRouterState exRouter) (currentUrlTree exRouter)\<rparr> \<and>
   ident_n (last (navigations_w exOvertaken)) = 2 \<and>
   findNavigation 1 (navigations_w (step exSerialize (Deliver 1 exFailing) exOvertaken))
     = Some \<lparr>ident_n = 1, url_n = ''/a'', preventPushState_n = False,
             phase_n = Settled (Rejected (Failure ''no match''))\<rparr> \<and>
   NavigationCancel 1 ''/a''
     \<notin> set (routerEvents (router_w (step exSerialize (Deliver 1 exFailing) exOvertaken))) \<and>
   currentUrlTree (router_w exOvertaken) = ''/b'' \<and>
   currentUrlTree (router_w (step exSerialize (Deliver 1 exFailing) exOvertaken)) = ''/''"
  by code_simp

end
